theory Spec2Isabelle
  imports Main "HOL-Library.Word"
begin

section \<open>Strings\<close>

text \<open>
  A JavaScript string is a sequence of 16-bit UTF-16 code units: \<open>code.length\<close>,
  \<open>code[i]\<close> and \<open>code.substring\<close> all count code units. Positions
  (\<open>startIndex\<close>, \<open>endIndex\<close>, \<open>failIndex\<close>) are offsets into that sequence and
  are modelled as natural numbers.
\<close>

type_synonym code_unit = "16 word"
type_synonym jsstring = "code_unit list"

definition lit :: "string \<Rightarrow> jsstring" where
  \<comment> \<open>the fixed ASCII text of a template literal\<close>
  "lit s = map (\<lambda>c. of_nat (of_char c)) s"

definition quote :: jsstring where
  \<comment> \<open>the apostrophe that the message templates put around interpolated text\<close>
  "quote = [0x27]"

definition char_at :: "jsstring \<Rightarrow> nat \<Rightarrow> jsstring option" where
  \<comment> \<open>\<open>s[i]\<close>: a string of one code unit, or \<open>undefined\<close> (\<open>None\<close>) out of range\<close>
  "char_at s i = (if i < length s then Some [s ! i] else None)"

definition substring :: "jsstring \<Rightarrow> nat \<Rightarrow> nat \<Rightarrow> jsstring" where
  \<comment> \<open>\<open>s.substring(a, b)\<close>: both indices are clamped to the length and swapped when
      the first is the larger one\<close>
  "substring s a b =
     (let a' = min a (length s); b' = min b (length s);
          from = min a' b'; to = max a' b'
      in take (to - from) (drop from s))"

definition is_high_surrogate :: "code_unit \<Rightarrow> bool" where
  "is_high_surrogate c = (0xD800 \<le> c \<and> c \<le> 0xDBFF)"

definition is_low_surrogate :: "code_unit \<Rightarrow> bool" where
  "is_low_surrogate c = (0xDC00 \<le> c \<and> c \<le> 0xDFFF)"

fun code_points :: "jsstring \<Rightarrow> jsstring list" where
  \<comment> \<open>what \<open>for (const character of s)\<close> yields: the string iterator walks code
      points, so a high surrogate followed by a low one comes out as one string of
      two code units; every other code unit comes out alone\<close>
  "code_points (c # d # cs) =
     (if is_high_surrogate c \<and> is_low_surrogate d
      then [c, d] # code_points cs
      else [c] # code_points (d # cs))"
| "code_points [c] = [[c]]"
| "code_points [] = []"

section \<open>Results and parsers\<close>

text \<open>
  Values are untyped at run time; \<open>Ext\<close> holds whatever a caller's \<open>map\<close> function
  produces. The tuple that \<open>concat\<close> returns is a two-element array.
\<close>

datatype 'u val = Null | Undefined | Str jsstring | Array "'u val list" | Ext 'u

text \<open>
  \<open>Result<T>\<close>: \<open>Success value endIndex\<close> or \<open>Failure messages failIndex unReversible\<close>.
  The field \<open>unReversible\<close> is optional: \<open>None\<close> is the absent field, and only
  \<open>Some True\<close> is truthy.
\<close>

datatype 'u result =
    Success "'u val" nat
  | Failure "jsstring list" nat "bool option"

text \<open>
  A \<open>Parser\<close> wraps its \<open>parse\<close> function. A call of \<open>parse\<close> that never returns
  (the loop of \<open>repeat\<close> can run forever) has the value \<open>None\<close>.
\<close>

datatype 'u parser = Parser (parse: "jsstring \<Rightarrow> nat \<Rightarrow> 'u result option")

section \<open>Combinators\<close>

definition mapP :: "'u parser \<Rightarrow> ('u val \<Rightarrow> nat \<Rightarrow> nat \<Rightarrow> 'u val) \<Rightarrow> 'u parser" where
  "mapP this f = Parser (\<lambda>code startIndex.
     case parse this code startIndex of
       None \<Rightarrow> None
     | Some (Failure ms fi u) \<Rightarrow> Some (Failure ms fi u)
     | Some (Success v e) \<Rightarrow> Some (Success (f v startIndex e) e))"

definition mapFailMessages :: "'u parser \<Rightarrow> (jsstring list \<Rightarrow> jsstring list) \<Rightarrow> 'u parser" where
  "mapFailMessages this f = Parser (\<lambda>code startIndex.
     case parse this code startIndex of
       None \<Rightarrow> None
     | Some (Success v e) \<Rightarrow> Some (Success v e)
     | Some (Failure ms fi u) \<Rightarrow> Some (Failure (f ms) fi u))"

definition concatP :: "'u parser \<Rightarrow> 'u parser \<Rightarrow> 'u parser" where
  "concatP this parser = Parser (\<lambda>code startIndex.
     case parse this code startIndex of
       None \<Rightarrow> None
     | Some (Failure ms fi u) \<Rightarrow> Some (Failure ms fi u)
     | Some (Success v1 e1) \<Rightarrow>
         (case parse parser code e1 of
            None \<Rightarrow> None
          | Some (Failure ms fi u) \<Rightarrow> Some (Failure ms fi u)
          | Some (Success v2 e2) \<Rightarrow> Some (Success (Array [v1, v2]) e2)))"

fun index_val :: "'u val \<Rightarrow> nat \<Rightarrow> 'u val" where
  \<comment> \<open>\<open>value[i]\<close>; \<open>join\<close> and \<open>joinRight\<close> apply it to the array of \<open>concat\<close> only\<close>
  "index_val (Array xs) i = (if i < length xs then xs ! i else Undefined)"
| "index_val (Str s) i = (if i < length s then Str [s ! i] else Undefined)"
| "index_val _ _ = Undefined"

definition join :: "'u parser \<Rightarrow> 'u parser \<Rightarrow> 'u parser" where
  "join this parser = mapP (concatP this parser) (\<lambda>v _ _. index_val v 0)"

definition joinRight :: "'u parser \<Rightarrow> 'u parser \<Rightarrow> 'u parser" where
  "joinRight this parser = mapP (concatP this parser) (\<lambda>v _ _. index_val v 1)"

definition unReversible :: "'u parser \<Rightarrow> 'u parser" where
  "unReversible this = Parser (\<lambda>code startIndex.
     case parse this code startIndex of
       None \<Rightarrow> None
     | Some (Failure ms fi u) \<Rightarrow> Some (Failure ms fi (Some True))
     | Some (Success v e) \<Rightarrow> Some (Success v e))"

definition unionP :: "'u parser \<Rightarrow> 'u parser \<Rightarrow> 'u parser" where
  "unionP this parser = Parser (\<lambda>code startIndex.
     case parse this code startIndex of
       None \<Rightarrow> None
     | Some (Success v e) \<Rightarrow> Some (Success v e)
     | Some (Failure ms fi u) \<Rightarrow>
         if u = Some True then Some (Failure ms fi u)
         else (case parse parser code startIndex of
                 None \<Rightarrow> None
               | Some (Success v e) \<Rightarrow> Some (Success v e)
               | Some (Failure ms' fi' u') \<Rightarrow>
                   if u' = Some True then Some (Failure ms' fi' u')
                   else Some (Failure (ms @ ms') startIndex None)))"

partial_function (option) repeat_loop ::
  "'u parser \<Rightarrow> nat \<Rightarrow> jsstring \<Rightarrow> 'u val list \<Rightarrow> nat \<Rightarrow> 'u result option" where
  "repeat_loop this minimumIterations code values endIndex =
     (if endIndex < length code \<or> length values < minimumIterations then
        (case parse this code endIndex of
           None \<Rightarrow> None
         | Some (Failure ms fi u) \<Rightarrow>
             if u = Some True \<or> length values < minimumIterations
             then Some (Failure ms fi u)
             else Some (Success (Array values) endIndex)
         | Some (Success v e) \<Rightarrow>
             repeat_loop this minimumIterations code (values @ [v]) e)
      else Some (Success (Array values) endIndex))"

declare repeat_loop.simps [code]

definition repeat :: "'u parser \<Rightarrow> nat \<Rightarrow> 'u parser" where
  \<comment> \<open>\<open>minimumIterations\<close> defaults to 0: \<open>p.repeat()\<close> is \<open>repeat p 0\<close>\<close>
  "repeat this minimumIterations = Parser (\<lambda>code startIndex.
     repeat_loop this minimumIterations code [] startIndex)"

definition wrap :: "'u parser \<Rightarrow> 'u parser" where
  "wrap this = Parser (\<lambda>code startIndex.
     case parse this code startIndex of
       None \<Rightarrow> None
     | Some (Failure ms fi u) \<Rightarrow> Some (Failure ms fi u)
     | Some (Success v e) \<Rightarrow> Some (Success (Str (substring code startIndex e)) e))"

definition NONE :: "'u parser" where
  "NONE = Parser (\<lambda>code startIndex. Some (Success Null startIndex))"

definition option :: "'u parser \<Rightarrow> 'u parser" where
  "option this = unionP this NONE"

definition dynamic :: "(unit \<Rightarrow> 'u parser) \<Rightarrow> 'u parser" where
  "dynamic getParser = Parser (\<lambda>code startIndex. parse (getParser ()) code startIndex)"

definition default_getMessage :: "jsstring \<Rightarrow> jsstring" where
  \<comment> \<open>the default of \<open>match\<close>'s second parameter\<close>
  "default_getMessage character = lit ''Unexpected Character: '' @ quote @ character @ quote"

definition match :: "(jsstring \<Rightarrow> bool) \<Rightarrow> (jsstring \<Rightarrow> jsstring) \<Rightarrow> 'u parser" where
  "match filter' getMessage = Parser (\<lambda>code startIndex.
     let character = (case char_at code startIndex of Some c \<Rightarrow> c | None \<Rightarrow> [])
     in if filter' character
        then Some (Success (Str character) (startIndex + 1))
        else Some (Failure [getMessage character] startIndex None))"

definition first_message :: "jsstring \<Rightarrow> jsstring \<Rightarrow> jsstring" where
  "first_message w char =
     lit ''Unexpected character: expected '' @ quote @ w @ quote
       @ lit '', instead found '' @ quote @ char @ quote"

definition next_message :: "jsstring \<Rightarrow> jsstring \<Rightarrow> jsstring \<Rightarrow> jsstring" where
  "next_message w character char =
     lit ''Unexpected character: expected '' @ quote @ w @ quote
       @ lit '' (specifically '' @ quote @ character @ quote
       @ lit ''), instead found '' @ quote @ char @ quote"

definition word :: "jsstring \<Rightarrow> 'u parser" where
  \<comment> \<open>\<open>word[0]\<close> is \<open>undefined\<close> for the empty word, and no character equals it\<close>
  "word w =
     foldl (\<lambda>parser character.
              wrap (concatP parser
                      (match (\<lambda>char. char = character) (next_message w character))))
           (match (\<lambda>char. Some char = char_at w 0) (first_message w))
           (code_points (substring w 1 (length w)))"

section \<open>Notions used to state the properties\<close>

text \<open>
  \<open>accumulated p n code P k\<close> follows the first \<open>k\<close> iterations of the loop of
  \<open>repeat p n\<close> started at \<open>P\<close>: it is \<open>Some (values, position)\<close> when each of
  them found the loop condition true and \<open>p\<close> successful, and gives the values
  collected so far, in order, with the position after the last of them (\<open>P\<close> when
  \<open>k = 0\<close>).
\<close>

fun accumulated ::
  "'u parser \<Rightarrow> nat \<Rightarrow> jsstring \<Rightarrow> nat \<Rightarrow> nat \<Rightarrow> ('u val list \<times> nat) option" where
  "accumulated p n code P 0 = Some ([], P)"
| "accumulated p n code P (Suc k) =
     (case accumulated p n code P k of
        None \<Rightarrow> None
      | Some (vs, j) \<Rightarrow>
          if j < length code \<or> length vs < n
          then (case parse p code j of
                  Some (Success v e) \<Rightarrow> Some (vs @ [v], e)
                | _ \<Rightarrow> None)
          else None)"

text \<open>
  \<open>first_mismatch w rest\<close> is the index of the first position at which \<open>rest\<close> has
  no code unit equal to the one of \<open>w\<close>; it is \<open>length w\<close> when \<open>w\<close> is a prefix of
  \<open>rest\<close>.
\<close>

fun first_mismatch :: "'a list \<Rightarrow> 'a list \<Rightarrow> nat" where
  "first_mismatch (x # xs) (y # ys) = (if x = y then Suc (first_mismatch xs ys) else 0)"
| "first_mismatch _ _ = 0"

text \<open>A string in which no high surrogate is directly followed by a low surrogate.\<close>

fun no_surrogate_pair :: "jsstring \<Rightarrow> bool" where
  "no_surrogate_pair (c # d # cs) =
     (\<not> (is_high_surrogate c \<and> is_low_surrogate d) \<and> no_surrogate_pair (d # cs))"
| "no_surrogate_pair _ = True"

definition advances :: "'u parser \<Rightarrow> bool" where
  "advances p = (\<forall>code P v e. parse p code P = Some (Success v e) \<longrightarrow> P \<le> e)"

definition reports :: "'u parser \<Rightarrow> bool" where
  "reports p = (\<forall>code P ms fi u. parse p code P = Some (Failure ms fi u) \<longrightarrow> ms \<noteq> [])"

definition never_returns :: "'u parser" where
  \<comment> \<open>a parser whose \<open>parse\<close> does not return; it shows in the examples that a
      combinator's result does not depend on an operand it does not call\<close>
  "never_returns = Parser (\<lambda>code startIndex. None)"

definition below :: "'u parser \<Rightarrow> 'u parser \<Rightarrow> bool" where
  \<comment> \<open>every result that \<open>p\<close> returns, \<open>q\<close> returns too\<close>
  "below p q = (\<forall>code P r. parse p code P = Some r \<longrightarrow> parse q code P = Some r)"

subsection \<open>Parsers built from the public API\<close>

text \<open>
  A parser built from the public API is given by the expression that builds it: the
  primitives \<open>Parser.match\<close>, \<open>word\<close>, \<open>Parser.NONE\<close> and \<open>Parser.dynamic\<close>, and the
  combinator methods applied to such expressions. \<open>DynamicE x\<close> is
  \<open>Parser.dynamic(() => x)\<close> for a variable \<open>x\<close> of the caller's program, and the
  bindings \<open>env\<close> give the expression each variable is bound to. The expression bound
  to \<open>x\<close> may itself contain \<open>DynamicE x\<close>, or reach it through other variables: that
  is how a grammar refers to itself, and the only thing \<open>dynamic\<close> is for. A function
  handed to \<open>dynamic\<close> that returns some other expression is the one of a variable
  bound to that expression.
\<close>

type_synonym name = string

datatype 'u expr =
    MatchE "jsstring \<Rightarrow> bool" "jsstring \<Rightarrow> jsstring"
  | WordE jsstring
  | NoneE
  | DynamicE name
  | MapE "'u expr" "'u val \<Rightarrow> nat \<Rightarrow> nat \<Rightarrow> 'u val"
  | MapFailMessagesE "'u expr" "jsstring list \<Rightarrow> jsstring list"
  | ConcatE "'u expr" "'u expr"
  | JoinE "'u expr" "'u expr"
  | JoinRightE "'u expr" "'u expr"
  | UnReversibleE "'u expr"
  | UnionE "'u expr" "'u expr"
  | RepeatE "'u expr" nat
  | WrapE "'u expr"
  | OptionE "'u expr"

text \<open>
  \<open>build d env g\<close> is the parser of \<open>g\<close>, assembled with the combinators above, in
  which a call of \<open>parse\<close> may nest at most \<open>d\<close> calls through \<open>dynamic\<close>; a call that
  would nest deeper has no value (\<open>None\<close>, as a call that does not return). A call
  of \<open>parse\<close> on the parser the program builds that returns has nested
  finitely many, so the parser of \<open>g\<close> returns \<open>r\<close> exactly when \<open>build d env g\<close> does
  for some \<open>d\<close>: that is \<open>returns env g code P r\<close>. A greater \<open>d\<close> keeps every result
  (\<open>build_mono\<close>), so \<open>returns\<close> gives at most one result (\<open>returns_deterministic\<close>), and
  \<open>DynamicE x\<close> returns what the expression bound to \<open>x\<close> returns (\<open>returns_dynamic\<close>).
\<close>

fun build :: "nat \<Rightarrow> (name \<Rightarrow> 'u expr) \<Rightarrow> 'u expr \<Rightarrow> 'u parser" where
  "build d env (MatchE filter' getMessage) = match filter' getMessage"
| "build d env (WordE w) = word w"
| "build d env NoneE = NONE"
| "build 0 env (DynamicE x) = never_returns"
| "build (Suc d) env (DynamicE x) = dynamic (\<lambda>_. build d env (env x))"
| "build d env (MapE p f) = mapP (build d env p) f"
| "build d env (MapFailMessagesE p f) = mapFailMessages (build d env p) f"
| "build d env (ConcatE p q) = concatP (build d env p) (build d env q)"
| "build d env (JoinE p q) = join (build d env p) (build d env q)"
| "build d env (JoinRightE p q) = joinRight (build d env p) (build d env q)"
| "build d env (UnReversibleE p) = unReversible (build d env p)"
| "build d env (UnionE p q) = unionP (build d env p) (build d env q)"
| "build d env (RepeatE p n) = repeat (build d env p) n"
| "build d env (WrapE p) = wrap (build d env p)"
| "build d env (OptionE p) = option (build d env p)"

definition returns :: "(name \<Rightarrow> 'u expr) \<Rightarrow> 'u expr \<Rightarrow> jsstring \<Rightarrow> nat \<Rightarrow> 'u result \<Rightarrow> bool" where
  "returns env g code P r = (\<exists>d. parse (build d env g) code P = Some r)"

text \<open>
  \<open>nonempty_maps g\<close>: every function handed to \<open>mapFailMessages\<close> in \<open>g\<close> maps
  non-empty lists of messages to non-empty lists.
\<close>

fun nonempty_maps :: "'u expr \<Rightarrow> bool" where
  "nonempty_maps (MapFailMessagesE p f) = ((\<forall>ms. ms \<noteq> [] \<longrightarrow> f ms \<noteq> []) \<and> nonempty_maps p)"
| "nonempty_maps (MapE p f) = nonempty_maps p"
| "nonempty_maps (ConcatE p q) = (nonempty_maps p \<and> nonempty_maps q)"
| "nonempty_maps (JoinE p q) = (nonempty_maps p \<and> nonempty_maps q)"
| "nonempty_maps (JoinRightE p q) = (nonempty_maps p \<and> nonempty_maps q)"
| "nonempty_maps (UnReversibleE p) = nonempty_maps p"
| "nonempty_maps (UnionE p q) = (nonempty_maps p \<and> nonempty_maps q)"
| "nonempty_maps (RepeatE p n) = nonempty_maps p"
| "nonempty_maps (WrapE p) = nonempty_maps p"
| "nonempty_maps (OptionE p) = nonempty_maps p"
| "nonempty_maps _ = True"

text \<open>
  The grammar of nested parentheses, which refers to itself:
  \<open>const parens = word('(').concat(Parser.dynamic(() => parens).option()).concat(word(')'))\<close>.
\<close>

definition parens_env :: "name \<Rightarrow> 'u expr" where
  "parens_env x =
     (if x = ''parens''
      then ConcatE (ConcatE (WordE (lit ''('')) (OptionE (DynamicE ''parens''))) (WordE (lit '')''))
      else NoneE)"

text \<open>
  \<open>parser_of env g p\<close>: the parser \<open>p\<close> returns exactly the results of the expression
  \<open>g\<close>. Such a parser exists and is unique (\<open>parser_of_exists\<close>, \<open>parser_of_unique\<close>),
  and these parsers are related as the source relates them: the parser of
  \<open>a.concat(b)\<close> is \<open>concatP\<close> of the parsers of \<open>a\<close> and \<open>b\<close>, and so on for every
  method, and the parser of \<open>Parser.dynamic(() => x)\<close> is \<open>dynamic\<close> of a function that
  returns the parser of what \<open>x\<close> is bound to (\<open>parser_of_concat\<close>, \<open>parser_of_dynamic\<close>
  and the lemmas beside them). \<open>limit_of c L\<close> says the same of any sequence \<open>c\<close> of
  parsers in which each one keeps the results of the one before (\<open>ascending c\<close>).
\<close>

definition ascending :: "(nat \<Rightarrow> 'u parser) \<Rightarrow> bool" where
  "ascending c = (\<forall>d. below (c d) (c (Suc d)))"

definition limit_of :: "(nat \<Rightarrow> 'u parser) \<Rightarrow> 'u parser \<Rightarrow> bool" where
  "limit_of c L = (\<forall>code P r. parse L code P = Some r \<longleftrightarrow> (\<exists>d. parse (c d) code P = Some r))"

definition parser_of :: "(name \<Rightarrow> 'u expr) \<Rightarrow> 'u expr \<Rightarrow> 'u parser \<Rightarrow> bool" where
  "parser_of env g p = (\<forall>code P r. parse p code P = Some r \<longleftrightarrow> returns env g code P r)"

lemmas eval_defs =
  lit_def word_def substring_def match_def char_at_def is_high_surrogate_def
  is_low_surrogate_def word_le_nat_alt

section \<open>The loop of \<open>repeat\<close>\<close>

lemma accumulated_length:
  "accumulated p n code P k = Some (vs, j) \<Longrightarrow> length vs = k"
  by (induction k arbitrary: vs j)
     (auto split: option.splits result.splits if_splits prod.splits)

lemma repeat_loop_accumulated:
  "accumulated p n code P k = Some (vs, j) \<Longrightarrow>
   repeat_loop p n code [] P = repeat_loop p n code vs j"
proof (induction k arbitrary: vs j)
  case 0
  then show ?case by simp
next
  case (Suc k)
  from Suc.prems obtain ws i v where
    acc: "accumulated p n code P k = Some (ws, i)" and
    cond: "i < length code \<or> length ws < n" and
    step: "parse p code i = Some (Success v j)" and
    vs: "vs = ws @ [v]"
    by (auto split: option.splits result.splits if_splits prod.splits)
  have "repeat_loop p n code ws i = repeat_loop p n code (ws @ [v]) j"
    using cond step by (subst repeat_loop.simps) simp
  with Suc.IH [OF acc] vs show ?case by simp
qed

lemma repeat_loop_total:
  assumes "\<forall>i<length code. \<exists>r. parse p code i = Some r \<and>
             (case r of Success v e \<Rightarrow> i < e | Failure ms fi u \<Rightarrow> u \<noteq> Some True)"
  shows "\<exists>ws e. repeat_loop p 0 code vs j = Some (Success (Array ws) e)"
proof (induction "length code - j" arbitrary: vs j rule: less_induct)
  case less
  show ?case
  proof (cases "j < length code")
    case False
    then show ?thesis by (subst repeat_loop.simps) simp
  next
    case True
    with assms obtain r where r: "parse p code j = Some r"
      and ok: "case r of Success v e \<Rightarrow> j < e | Failure ms fi u \<Rightarrow> u \<noteq> Some True"
      by blast
    show ?thesis
    proof (cases r)
      case (Failure ms fi u)
      with r ok True show ?thesis by (subst repeat_loop.simps) simp
    next
      case (Success v e)
      with ok have "j < e" by simp
      with True have "length code - e < length code - j" by arith
      from less [OF this] obtain ws e' where
        "repeat_loop p 0 code (vs @ [v]) e = Some (Success (Array ws) e')" by blast
      with r Success True show ?thesis by (subst repeat_loop.simps) simp
    qed
  qed
qed

lemma repeat_loop_NONE_returns:
  assumes "repeat_loop p n code vs i = Some y"
  shows "\<not> (p = NONE \<and> n = 0 \<and> code \<noteq> [] \<and> i = 0)"
proof (rule repeat_loop.raw_induct
    [where P = "\<lambda>p n code vs i y. \<not> (p = NONE \<and> n = 0 \<and> code \<noteq> [] \<and> i = 0)",
     OF _ assms], goal_cases)
  case (1 rl p n code vs i y)
  show ?case
  proof
    assume a: "p = NONE \<and> n = 0 \<and> code \<noteq> [] \<and> i = 0"
    then have "rl p n code (vs @ [Null]) i = Some y"
      using 1(2) by (simp add: NONE_def)
    from 1(1) [OF this] a show False by simp
  qed
qed

lemma repeat_NONE_diverges:
  "code \<noteq> [] \<Longrightarrow> parse (repeat (NONE :: 'u parser) 0) code 0 = None"
  using repeat_loop_NONE_returns [of "NONE :: 'u parser" 0 code "[]" 0]
  by (cases "repeat_loop (NONE :: 'u parser) 0 code [] 0") (auto simp: repeat_def)

lemma repeat_loop_advances:
  assumes "repeat_loop p n code vs i = Some (Success v e)"
    and adv: "\<forall>c j v e. parse p c j = Some (Success v e) \<longrightarrow> j \<le> e"
  shows "i \<le> e"
proof -
  let ?A = "\<lambda>q. \<forall>c j v e. parse q c j = Some (Success v e) \<longrightarrow> j \<le> e"
  have "?A p \<longrightarrow> (\<forall>v' e'. Success v e = Success v' e' \<longrightarrow> i \<le> e')"
  proof (rule repeat_loop.raw_induct
      [where P = "\<lambda>q n code vs i r. ?A q \<longrightarrow> (\<forall>v e. r = Success v e \<longrightarrow> i \<le> e)",
       OF _ assms(1)], goal_cases)
    case (1 rl q n code vs i r)
    show ?case
    proof (intro impI allI)
      fix v e
      assume adv: "?A q" and r: "r = Success v e"
      show "i \<le> e"
      proof (cases "i < length code \<or> length vs < n")
        case False
        with 1(2) r show ?thesis by simp
      next
        case True
        show ?thesis
        proof (cases "parse q code i")
          case None
          with 1(2) True show ?thesis by simp
        next
          case (Some x)
          show ?thesis
          proof (cases x)
            case (Failure ms fi u)
            with 1(2) True Some r show ?thesis by (simp split: if_splits)
          next
            case (Success w j)
            with 1(2) True Some have "rl q n code (vs @ [w]) j = Some r" by simp
            from 1(1) [OF this] adv r have "j \<le> e" by blast
            moreover from adv Some Success have "i \<le> j" by blast
            ultimately show ?thesis by simp
          qed
        qed
      qed
    qed
  qed
  with adv show ?thesis by simp
qed

lemma repeat_loop_failure:
  assumes "repeat_loop p n code vs i = Some (Failure ms fi u)"
  shows "\<exists>j. parse p code j = Some (Failure ms fi u)"
proof (rule repeat_loop.raw_induct
    [where P = "\<lambda>q n code vs i r. \<forall>ms fi u. r = Failure ms fi u \<longrightarrow>
                 (\<exists>j. parse q code j = Some (Failure ms fi u))",
     OF _ assms, THEN spec, THEN spec, THEN spec, THEN mp, OF _ refl], goal_cases)
  case (1 rl q n code vs i r)
  show ?case
  proof (intro impI allI)
    fix ms fi u
    assume r: "r = Failure ms fi u"
    show "\<exists>j. parse q code j = Some (Failure ms fi u)"
    proof (cases "parse q code i")
      case None
      with 1(2) r show ?thesis by (simp split: if_splits)
    next
      case (Some x)
      show ?thesis
      proof (cases x)
        case (Failure ms' fi' u')
        with 1(2) Some r show ?thesis by (auto split: if_splits)
      next
        case (Success w j)
        with 1(2) Some r have "rl q n code (vs @ [w]) j = Some r"
          by (simp split: if_splits)
        from 1(1) [OF this] r show ?thesis by blast
      qed
    qed
  qed
qed

section \<open>The chain of matchers built by \<open>word\<close>\<close>

lemma code_points_single:
  "no_surrogate_pair s \<Longrightarrow> code_points s = map (\<lambda>c. [c]) s"
  by (induction s rule: code_points.induct) auto

lemma first_mismatch_le: "first_mismatch xs ys \<le> length xs"
  by (induction xs ys rule: first_mismatch.induct) auto

lemma first_mismatch_full:
  "first_mismatch xs ys = length xs \<longleftrightarrow> take (length xs) ys = xs"
  by (induction xs ys rule: first_mismatch.induct) auto

lemma first_mismatch_append_less:
  "first_mismatch xs ys < length xs \<Longrightarrow> first_mismatch (xs @ zs) ys = first_mismatch xs ys"
  by (induction xs ys rule: first_mismatch.induct) (auto split: if_splits)

lemma first_mismatch_snoc:
  "first_mismatch xs ys = length xs \<Longrightarrow>
   first_mismatch (xs @ [c]) ys =
     (if length xs < length ys \<and> ys ! length xs = c then Suc (length xs) else length xs)"
proof (induction xs arbitrary: ys)
  case Nil
  then show ?case by (cases ys) auto
next
  case (Cons x xs)
  then show ?case by (cases ys) (auto split: if_splits)
qed

lemma substring_take_drop:
  "P \<le> e \<Longrightarrow> e \<le> length code \<Longrightarrow> substring code P e = take (e - P) (drop P code)"
  by (simp add: substring_def Let_def min_def max_def)

lemma chain_parse:
  fixes g0 :: "jsstring \<Rightarrow> jsstring" and g :: "jsstring \<Rightarrow> jsstring \<Rightarrow> jsstring"
  defines "chain \<equiv> \<lambda>c0 cs. foldl (\<lambda>parser character.
              wrap (concatP parser (match (\<lambda>char. char = character) (g character))))
           (match (\<lambda>char. char = [c0]) g0) (map (\<lambda>c. [c]) cs)"
  shows "if first_mismatch (c0 # cs) (drop P code) = Suc (length cs)
         then parse (chain c0 cs :: 'u parser) code P
                = Some (Success (Str (c0 # cs)) (P + Suc (length cs)))
         else \<exists>m. parse (chain c0 cs :: 'u parser) code P
                = Some (Failure [m] (P + first_mismatch (c0 # cs) (drop P code)) None)"
proof (induction cs rule: rev_induct)
  case Nil
  show ?case
    by (cases "drop P code")
       (auto simp: chain_def match_def char_at_def Let_def hd_drop_conv_nth
             dest: arg_cong [where f = hd])
next
  case (snoc c cs)
  let ?xs = "c0 # cs" and ?ys = "drop P code"
  let ?n = "Suc (length cs)"
  let ?p = "chain c0 cs :: 'u parser"
  have unfold: "chain c0 (cs @ [c]) =
      wrap (concatP (chain c0 cs) (match (\<lambda>char. char = [c]) (g [c])))"
    by (simp add: chain_def)
  show ?case
  proof (cases "first_mismatch ?xs ?ys = ?n")
    case False
    have "first_mismatch ?xs ?ys \<le> length ?xs" by (rule first_mismatch_le)
    with False have less: "first_mismatch ?xs ?ys < length ?xs" by simp
    have same: "first_mismatch (c0 # cs @ [c]) ?ys = first_mismatch ?xs ?ys"
      using first_mismatch_append_less [OF less, of "[c]"] by simp
    from snoc False obtain m where
      "parse ?p code P = Some (Failure [m] (P + first_mismatch ?xs ?ys) None)" by auto
    then have "parse (chain c0 (cs @ [c]) :: 'u parser) code P
                 = Some (Failure [m] (P + first_mismatch ?xs ?ys) None)"
      by (simp add: unfold wrap_def concatP_def)
    with less same show ?thesis by auto
  next
    case True
    with snoc have head: "parse ?p code P = Some (Success (Str ?xs) (P + ?n))" by simp
    have full: "first_mismatch ?xs ?ys = length ?xs" using True by simp
    have sn: "first_mismatch (c0 # cs @ [c]) ?ys =
        (if ?n < length ?ys \<and> ?ys ! ?n = c then Suc ?n else ?n)"
      using first_mismatch_snoc [OF full, of c] by (simp del: nth_drop)
    show ?thesis
    proof (cases "?n < length ?ys \<and> ?ys ! ?n = c")
      case False
      then have "char_at code (P + ?n) \<noteq> Some [c]"
        by (auto simp: char_at_def)
      then have "\<exists>m. parse (chain c0 (cs @ [c]) :: 'u parser) code P
                 = Some (Failure [m] (P + ?n) None)"
        using head
        by (auto simp: unfold wrap_def concatP_def match_def Let_def split: option.splits)
      moreover have "first_mismatch (c0 # cs @ [c]) ?ys = ?n"
        using sn False by (auto simp del: nth_drop)
      ultimately show ?thesis by simp
    next
      case yes: True
      then have inside: "P + ?n < length code" and at: "code ! (P + ?n) = c"
        by auto
      have "first_mismatch (c0 # cs @ [c]) ?ys = length (c0 # cs @ [c])"
        using sn yes by simp
      then have tk: "take (Suc ?n) ?ys = c0 # cs @ [c]"
        using first_mismatch_full [of "c0 # cs @ [c]" ?ys] by simp
      have sub: "substring code P (Suc (P + ?n)) = c0 # cs @ [c]"
        using substring_take_drop [of P "Suc (P + ?n)" code] inside tk by simp
      have "parse (chain c0 (cs @ [c]) :: 'u parser) code P
              = Some (Success (Str (c0 # cs @ [c])) (Suc (P + ?n)))"
        using head inside at sub
        by (simp add: unfold wrap_def concatP_def match_def char_at_def)
      moreover have "first_mismatch (c0 # cs @ [c]) ?ys = Suc ?n"
        using sn yes by (auto simp del: nth_drop)
      ultimately show ?thesis by simp
    qed
  qed
qed

lemma word_parse:
  assumes "no_surrogate_pair cs"
  shows "if first_mismatch (c0 # cs) (drop P code) = Suc (length cs)
         then parse (word (c0 # cs) :: 'u parser) code P
                = Some (Success (Str (c0 # cs)) (P + Suc (length cs)))
         else \<exists>m. parse (word (c0 # cs) :: 'u parser) code P
                = Some (Failure [m] (P + first_mismatch (c0 # cs) (drop P code)) None)"
proof -
  have "substring (c0 # cs) 1 (length (c0 # cs)) = cs"
    by (simp add: substring_def Let_def)
  then have "(word (c0 # cs) :: 'u parser) =
      foldl (\<lambda>parser character.
              wrap (concatP parser (match (\<lambda>char. char = character)
                                      (next_message (c0 # cs) character))))
           (match (\<lambda>char. char = [c0]) (first_message (c0 # cs))) (map (\<lambda>c. [c]) cs)"
    using code_points_single [OF assms] by (simp add: word_def char_at_def)
  then show ?thesis
    using chain_parse [where 'u = 'u and ?c0.0 = c0 and cs = cs and P = P and code = code
        and ?g0.0 = "first_message (c0 # cs)" and g = "next_message (c0 # cs)"]
    by simp
qed

section \<open>Closure of the two result invariants under the combinators\<close>

lemma advances_match: "advances (match f g)"
  by (auto simp: advances_def match_def Let_def split: if_splits)

lemma advances_NONE: "advances NONE"
  by (simp add: advances_def NONE_def)

lemma advances_map: "advances p \<Longrightarrow> advances (mapP p f)"
  by (auto simp: advances_def mapP_def split: option.splits result.splits)

lemma advances_mapFailMessages: "advances p \<Longrightarrow> advances (mapFailMessages p g)"
  by (auto simp: advances_def mapFailMessages_def split: option.splits result.splits)

lemma advances_concat: "advances p \<Longrightarrow> advances q \<Longrightarrow> advances (concatP p q)"
  unfolding advances_def concatP_def
  by (fastforce split: option.splits result.splits)

lemma advances_unReversible: "advances p \<Longrightarrow> advances (unReversible p)"
  by (auto simp: advances_def unReversible_def split: option.splits result.splits)

lemma advances_union: "advances p \<Longrightarrow> advances q \<Longrightarrow> advances (unionP p q)"
  by (auto simp: advances_def unionP_def split: option.splits result.splits if_splits)

lemma advances_wrap: "advances p \<Longrightarrow> advances (wrap p)"
  by (auto simp: advances_def wrap_def split: option.splits result.splits)

lemma advances_dynamic: "advances (g ()) \<Longrightarrow> advances (dynamic g)"
  by (simp add: advances_def dynamic_def)

lemma advances_repeat:
  assumes "advances p"
  shows "advances (repeat p n)"
  unfolding advances_def
proof (intro allI impI)
  fix code P v e
  assume "parse (repeat p n) code P = Some (Success v e)"
  then have "repeat_loop p n code [] P = Some (Success v e)"
    by (simp add: repeat_def)
  moreover from assms
  have "\<forall>c j v e. parse p c j = Some (Success v e) \<longrightarrow> j \<le> e"
    unfolding advances_def by blast
  ultimately show "P \<le> e" by (rule repeat_loop_advances)
qed

lemma advances_word: "advances (word w :: 'u parser)"
proof -
  have "advances (foldl (\<lambda>parser character.
              wrap (concatP parser (match (\<lambda>char. char = character) (g character)))) p cs)"
    if "advances p" for p :: "'u parser" and cs g
    using that
    by (induction cs arbitrary: p) (simp_all add: advances_wrap advances_concat advances_match)
  from this [OF advances_match] show ?thesis unfolding word_def .
qed

lemma reports_match: "reports (match f g)"
  by (auto simp: reports_def match_def Let_def split: if_splits)

lemma reports_NONE: "reports NONE"
  by (simp add: reports_def NONE_def)

lemma reports_map: "reports p \<Longrightarrow> reports (mapP p f)"
  by (auto simp: reports_def mapP_def split: option.splits result.splits)

lemma reports_mapFailMessages:
  assumes "reports p" and "\<forall>ms. ms \<noteq> [] \<longrightarrow> g ms \<noteq> []"
  shows "reports (mapFailMessages p g)"
  unfolding reports_def
proof (intro allI impI)
  fix code P ms fi u
  assume a: "parse (mapFailMessages p g) code P = Some (Failure ms fi u)"
  show "ms \<noteq> []"
  proof (cases "parse p code P")
    case None
    with a show ?thesis by (simp add: mapFailMessages_def)
  next
    case (Some r)
    show ?thesis
    proof (cases r)
      case (Success v e)
      with a Some show ?thesis by (simp add: mapFailMessages_def)
    next
      case (Failure ms' fi' u')
      with a Some have ms: "ms = g ms'" by (simp add: mapFailMessages_def)
      from assms(1) Some Failure have "ms' \<noteq> []"
        unfolding reports_def by blast
      with assms(2) ms show ?thesis by simp
    qed
  qed
qed

lemma reports_concat: "reports p \<Longrightarrow> reports q \<Longrightarrow> reports (concatP p q)"
  unfolding reports_def concatP_def
  by (fastforce split: option.splits result.splits)

lemma reports_unReversible: "reports p \<Longrightarrow> reports (unReversible p)"
  unfolding reports_def unReversible_def
  by (fastforce split: option.splits result.splits)

lemma reports_union: "reports p \<Longrightarrow> reports q \<Longrightarrow> reports (unionP p q)"
  unfolding reports_def unionP_def
  by (fastforce split: option.splits result.splits if_splits)

lemma reports_wrap: "reports p \<Longrightarrow> reports (wrap p)"
  unfolding reports_def wrap_def
  by (fastforce split: option.splits result.splits)

lemma reports_dynamic: "reports (g ()) \<Longrightarrow> reports (dynamic g)"
  by (simp add: reports_def dynamic_def)

lemma reports_repeat:
  assumes "reports p"
  shows "reports (repeat p n)"
  unfolding reports_def
proof (intro allI impI)
  fix code P ms fi u
  assume "parse (repeat p n) code P = Some (Failure ms fi u)"
  then have "repeat_loop p n code [] P = Some (Failure ms fi u)"
    by (simp add: repeat_def)
  from repeat_loop_failure [OF this] obtain j where
    "parse p code j = Some (Failure ms fi u)" by blast
  with assms show "ms \<noteq> []"
    unfolding reports_def by blast
qed

lemma reports_word: "reports (word w :: 'u parser)"
proof -
  have "reports (foldl (\<lambda>parser character.
              wrap (concatP parser (match (\<lambda>char. char = character) (g character)))) p cs)"
    if "reports p" for p :: "'u parser" and cs g
    using that
    by (induction cs arbitrary: p) (simp_all add: reports_wrap reports_concat reports_match)
  from this [OF reports_match] show ?thesis unfolding word_def .
qed

lemma advances_never_returns: "advances never_returns"
  by (simp add: advances_def never_returns_def)

lemma reports_never_returns: "reports never_returns"
  by (simp add: reports_def never_returns_def)

lemma advances_join: "advances p \<Longrightarrow> advances q \<Longrightarrow> advances (join p q)"
  by (simp add: join_def advances_map advances_concat)

lemma advances_joinRight: "advances p \<Longrightarrow> advances q \<Longrightarrow> advances (joinRight p q)"
  by (simp add: joinRight_def advances_map advances_concat)

lemma advances_option: "advances p \<Longrightarrow> advances (option p)"
  by (simp add: option_def advances_union advances_NONE)

lemma advances_build: "advances (build d env g)"
  by (induction d env g rule: build.induct)
     (simp_all add: advances_match advances_word advances_NONE advances_never_returns
        advances_dynamic advances_map advances_mapFailMessages advances_concat advances_join
        advances_joinRight advances_unReversible advances_union advances_repeat advances_wrap
        advances_option)

lemma reports_join: "reports p \<Longrightarrow> reports q \<Longrightarrow> reports (join p q)"
  by (simp add: join_def reports_map reports_concat)

lemma reports_joinRight: "reports p \<Longrightarrow> reports q \<Longrightarrow> reports (joinRight p q)"
  by (simp add: joinRight_def reports_map reports_concat)

lemma reports_option: "reports p \<Longrightarrow> reports (option p)"
  by (simp add: option_def reports_union reports_NONE)

lemma reports_build:
  assumes "\<forall>x. nonempty_maps (env x)"
  shows "nonempty_maps g \<Longrightarrow> reports (build d env g)"
  using assms
  by (induction d env g rule: build.induct)
     (simp_all add: reports_match reports_word reports_NONE reports_never_returns
        reports_dynamic reports_map reports_mapFailMessages reports_concat reports_join
        reports_joinRight reports_unReversible reports_union reports_repeat reports_wrap
        reports_option)

section \<open>Nesting depth of \<open>dynamic\<close>: more depth keeps every result\<close>

lemma below_refl: "below p p"
  by (simp add: below_def)

lemma below_trans: "below p q \<Longrightarrow> below q r \<Longrightarrow> below p r"
  by (simp add: below_def)

lemma below_never_returns: "below never_returns p"
  by (simp add: below_def never_returns_def)

lemma below_dynamic: "below (g ()) (h ()) \<Longrightarrow> below (dynamic g) (dynamic h)"
  by (simp add: below_def dynamic_def)

lemma below_map: "below p q \<Longrightarrow> below (mapP p f) (mapP q f)"
  unfolding below_def
proof (intro allI impI)
  fix code P r
  assume b: "\<forall>code P r. parse p code P = Some r \<longrightarrow> parse q code P = Some r"
    and a: "parse (mapP p f) code P = Some r"
  from a obtain x where x: "parse p code P = Some x"
    by (cases "parse p code P") (auto simp: mapP_def)
  with b have "parse q code P = Some x" by blast
  with a x show "parse (mapP q f) code P = Some r" by (simp add: mapP_def)
qed

lemma below_mapFailMessages: "below p q \<Longrightarrow> below (mapFailMessages p f) (mapFailMessages q f)"
  unfolding below_def
proof (intro allI impI)
  fix code P r
  assume b: "\<forall>code P r. parse p code P = Some r \<longrightarrow> parse q code P = Some r"
    and a: "parse (mapFailMessages p f) code P = Some r"
  from a obtain x where x: "parse p code P = Some x"
    by (cases "parse p code P") (auto simp: mapFailMessages_def)
  with b have "parse q code P = Some x" by blast
  with a x show "parse (mapFailMessages q f) code P = Some r" by (simp add: mapFailMessages_def)
qed

lemma below_unReversible: "below p q \<Longrightarrow> below (unReversible p) (unReversible q)"
  unfolding below_def
proof (intro allI impI)
  fix code P r
  assume b: "\<forall>code P r. parse p code P = Some r \<longrightarrow> parse q code P = Some r"
    and a: "parse (unReversible p) code P = Some r"
  from a obtain x where x: "parse p code P = Some x"
    by (cases "parse p code P") (auto simp: unReversible_def)
  with b have "parse q code P = Some x" by blast
  with a x show "parse (unReversible q) code P = Some r" by (simp add: unReversible_def)
qed

lemma below_wrap: "below p q \<Longrightarrow> below (wrap p) (wrap q)"
  unfolding below_def
proof (intro allI impI)
  fix code P r
  assume b: "\<forall>code P r. parse p code P = Some r \<longrightarrow> parse q code P = Some r"
    and a: "parse (wrap p) code P = Some r"
  from a obtain x where x: "parse p code P = Some x"
    by (cases "parse p code P") (auto simp: wrap_def)
  with b have "parse q code P = Some x" by blast
  with a x show "parse (wrap q) code P = Some r" by (simp add: wrap_def)
qed

lemma below_concat:
  assumes "below p p'" and "below q q'"
  shows "below (concatP p q) (concatP p' q')"
  unfolding below_def
proof (intro allI impI)
  fix code P r
  assume a: "parse (concatP p q) code P = Some r"
  from a obtain x where x: "parse p code P = Some x"
    by (cases "parse p code P") (auto simp: concatP_def)
  with assms(1) have x': "parse p' code P = Some x" by (simp add: below_def)
  show "parse (concatP p' q') code P = Some r"
  proof (cases x)
    case (Failure ms fi u)
    with a x x' show ?thesis by (auto simp: concatP_def)
  next
    case (Success v e)
    with a x obtain y where y: "parse q code e = Some y"
      by (cases "parse q code e") (auto simp: concatP_def)
    with assms(2) have "parse q' code e = Some y" by (simp add: below_def)
    with a x x' y Success show ?thesis by (auto simp: concatP_def)
  qed
qed

lemma below_union:
  assumes "below p p'" and "below q q'"
  shows "below (unionP p q) (unionP p' q')"
  unfolding below_def
proof (intro allI impI)
  fix code P r
  assume a: "parse (unionP p q) code P = Some r"
  from a obtain x where x: "parse p code P = Some x"
    by (cases "parse p code P") (auto simp: unionP_def)
  with assms(1) have x': "parse p' code P = Some x" by (simp add: below_def)
  show "parse (unionP p' q') code P = Some r"
  proof (cases x)
    case (Success v e)
    with a x x' show ?thesis by (auto simp: unionP_def)
  next
    case (Failure ms fi u)
    show ?thesis
    proof (cases "u = Some True")
      case True
      with a x x' Failure show ?thesis by (auto simp: unionP_def)
    next
      case False
      with a x Failure obtain y where y: "parse q code P = Some y"
        by (cases "parse q code P") (auto simp: unionP_def)
      with assms(2) have "parse q' code P = Some y" by (simp add: below_def)
      with a x x' y Failure False show ?thesis by (auto simp: unionP_def)
    qed
  qed
qed

lemma repeat_loop_mono:
  assumes "repeat_loop p n code vs i = Some r" and "below p q"
  shows "repeat_loop q n code vs i = Some r"
proof -
  have "below p q \<longrightarrow> repeat_loop q n code vs i = Some r"
  proof (rule repeat_loop.raw_induct
      [where P = "\<lambda>p n code vs i r. below p q \<longrightarrow> repeat_loop q n code vs i = Some r",
       OF _ assms(1)], goal_cases)
    case (1 rl p n code vs i r)
    show ?case
    proof
      assume b: "below p q"
      show "repeat_loop q n code vs i = Some r"
      proof (cases "i < length code \<or> length vs < n")
        case False
        with 1(2) show ?thesis by (subst repeat_loop.simps) simp
      next
        case True
        with 1(2) obtain x where x: "parse p code i = Some x"
          by (cases "parse p code i") auto
        with b have x': "parse q code i = Some x" by (simp add: below_def)
        show ?thesis
        proof (cases x)
          case (Failure ms fi u)
          with 1(2) True x x' show ?thesis by (subst repeat_loop.simps) simp
        next
          case (Success v e)
          with 1(2) True x have "rl p n code (vs @ [v]) e = Some r" by simp
          from 1(1) [OF this] b have "repeat_loop q n code (vs @ [v]) e = Some r" by blast
          with True x' Success show ?thesis by (subst repeat_loop.simps) simp
        qed
      qed
    qed
  qed
  with assms(2) show ?thesis by blast
qed

lemma below_repeat: "below p q \<Longrightarrow> below (repeat p n) (repeat q n)"
  unfolding below_def [of "repeat p n"]
  by (auto simp: repeat_def intro: repeat_loop_mono)

lemma below_join: "below p p' \<Longrightarrow> below q q' \<Longrightarrow> below (join p q) (join p' q')"
  by (simp add: join_def below_map below_concat)

lemma below_joinRight:
  "below p p' \<Longrightarrow> below q q' \<Longrightarrow> below (joinRight p q) (joinRight p' q')"
  by (simp add: joinRight_def below_map below_concat)

lemma below_option: "below p q \<Longrightarrow> below (option p) (option q)"
  by (simp add: option_def below_union below_refl)

lemma build_Suc: "below (build d env g) (build (Suc d) env g)"
  by (induction d env g rule: build.induct)
     (simp_all add: below_refl below_never_returns below_dynamic below_map
        below_mapFailMessages below_concat below_join below_joinRight below_unReversible
        below_union below_repeat below_wrap below_option)

lemma build_mono: "d \<le> d' \<Longrightarrow> below (build d env g) (build d' env g)"
proof (induction d' arbitrary: d)
  case 0
  then show ?case by (simp add: below_refl)
next
  case (Suc d')
  show ?case
  proof (cases "d = Suc d'")
    case True
    then show ?thesis by (simp add: below_refl)
  next
    case False
    with Suc.prems have "d \<le> d'" by simp
    from below_trans [OF Suc.IH [OF this] build_Suc] show ?thesis .
  qed
qed

lemma returns_deterministic:
  assumes "returns env g code P r" and "returns env g code P r'"
  shows "r = r'"
proof -
  from assms obtain d d' where
    d: "parse (build d env g) code P = Some r" and d': "parse (build d' env g) code P = Some r'"
    by (auto simp: returns_def)
  from d build_mono [of d "max d d'" env g]
  have "parse (build (max d d') env g) code P = Some r" by (simp add: below_def)
  moreover from d' build_mono [of d' "max d d'" env g]
  have "parse (build (max d d') env g) code P = Some r'" by (simp add: below_def)
  ultimately show ?thesis by simp
qed

lemma returns_dynamic:
  "returns env (DynamicE x) code P r \<longleftrightarrow> returns env (env x) code P r"
proof
  assume "returns env (DynamicE x) code P r"
  then obtain d where d: "parse (build d env (DynamicE x)) code P = Some r"
    by (auto simp: returns_def)
  then obtain d' where "d = Suc d'"
    by (cases d) (auto simp: never_returns_def)
  with d show "returns env (env x) code P r"
    by (auto simp: returns_def dynamic_def)
next
  assume "returns env (env x) code P r"
  then obtain d where "parse (build d env (env x)) code P = Some r"
    by (auto simp: returns_def)
  then have "parse (build (Suc d) env (DynamicE x)) code P = Some r"
    by (simp add: dynamic_def)
  then show "returns env (DynamicE x) code P r"
    unfolding returns_def by blast
qed

section \<open>The parsers of expressions that refer to themselves\<close>

lemma ascending_mono:
  assumes "ascending c" and "d \<le> d'"
  shows "below (c d) (c d')"
  using assms(2)
proof (induction d' arbitrary: d)
  case 0
  then show ?case by (simp add: below_refl)
next
  case (Suc d')
  show ?case
  proof (cases "d = Suc d'")
    case True
    then show ?thesis by (simp add: below_refl)
  next
    case False
    with Suc.prems have "d \<le> d'" by simp
    from Suc.IH [OF this] assms(1) show ?thesis
      unfolding ascending_def using below_trans by blast
  qed
qed

lemma ascending_at:
  assumes "ascending c" and "parse (c d) code P = Some r" and "d \<le> d'"
  shows "parse (c d') code P = Some r"
  using ascending_mono [OF assms(1) assms(3)] assms(2) by (simp add: below_def)

lemma limit_below: "limit_of c L \<Longrightarrow> below (c d) L"
  unfolding limit_of_def below_def by blast

lemma limit_const: "limit_of (\<lambda>d. p) p"
  by (simp add: limit_of_def)

lemma ascending_const: "ascending (\<lambda>d. p)"
  by (simp add: ascending_def below_refl)

lemma limit_map:
  assumes "limit_of c L"
  shows "limit_of (\<lambda>d. mapP (c d) f) (mapP L f)"
  unfolding limit_of_def
proof (intro allI iffI)
  fix code P r
  assume a: "parse (mapP L f) code P = Some r"
  then obtain x where x: "parse L code P = Some x"
    by (cases "parse L code P") (auto simp: mapP_def)
  with assms obtain d where "parse (c d) code P = Some x"
    unfolding limit_of_def by blast
  with a x have "parse (mapP (c d) f) code P = Some r" by (simp add: mapP_def)
  then show "\<exists>d. parse (mapP (c d) f) code P = Some r" ..
next
  fix code P r
  assume "\<exists>d. parse (mapP (c d) f) code P = Some r"
  then obtain d where "parse (mapP (c d) f) code P = Some r" ..
  with below_map [OF limit_below [OF assms, of d], of f]
  show "parse (mapP L f) code P = Some r" by (simp add: below_def)
qed
lemma limit_mapFailMessages:
  assumes "limit_of c L"
  shows "limit_of (\<lambda>d. mapFailMessages (c d) f) (mapFailMessages L f)"
  unfolding limit_of_def
proof (intro allI iffI)
  fix code P r
  assume a: "parse (mapFailMessages L f) code P = Some r"
  then obtain x where x: "parse L code P = Some x"
    by (cases "parse L code P") (auto simp: mapFailMessages_def)
  with assms obtain d where "parse (c d) code P = Some x"
    unfolding limit_of_def by blast
  with a x have "parse (mapFailMessages (c d) f) code P = Some r" by (simp add: mapFailMessages_def)
  then show "\<exists>d. parse (mapFailMessages (c d) f) code P = Some r" ..
next
  fix code P r
  assume "\<exists>d. parse (mapFailMessages (c d) f) code P = Some r"
  then obtain d where "parse (mapFailMessages (c d) f) code P = Some r" ..
  with below_mapFailMessages [OF limit_below [OF assms, of d], of f]
  show "parse (mapFailMessages L f) code P = Some r" by (simp add: below_def)
qed

lemma limit_unReversible:
  assumes "limit_of c L"
  shows "limit_of (\<lambda>d. unReversible (c d)) (unReversible L)"
  unfolding limit_of_def
proof (intro allI iffI)
  fix code P r
  assume a: "parse (unReversible L) code P = Some r"
  then obtain x where x: "parse L code P = Some x"
    by (cases "parse L code P") (auto simp: unReversible_def)
  with assms obtain d where "parse (c d) code P = Some x"
    unfolding limit_of_def by blast
  with a x have "parse (unReversible (c d)) code P = Some r" by (simp add: unReversible_def)
  then show "\<exists>d. parse (unReversible (c d)) code P = Some r" ..
next
  fix code P r
  assume "\<exists>d. parse (unReversible (c d)) code P = Some r"
  then obtain d where "parse (unReversible (c d)) code P = Some r" ..
  with below_unReversible [OF limit_below [OF assms, of d]]
  show "parse (unReversible L) code P = Some r" by (simp add: below_def)
qed

lemma limit_wrap:
  assumes "limit_of c L"
  shows "limit_of (\<lambda>d. wrap (c d)) (wrap L)"
  unfolding limit_of_def
proof (intro allI iffI)
  fix code P r
  assume a: "parse (wrap L) code P = Some r"
  then obtain x where x: "parse L code P = Some x"
    by (cases "parse L code P") (auto simp: wrap_def)
  with assms obtain d where "parse (c d) code P = Some x"
    unfolding limit_of_def by blast
  with a x have "parse (wrap (c d)) code P = Some r" by (simp add: wrap_def)
  then show "\<exists>d. parse (wrap (c d)) code P = Some r" ..
next
  fix code P r
  assume "\<exists>d. parse (wrap (c d)) code P = Some r"
  then obtain d where "parse (wrap (c d)) code P = Some r" ..
  with below_wrap [OF limit_below [OF assms, of d]]
  show "parse (wrap L) code P = Some r" by (simp add: below_def)
qed

lemma limit_concat:
  assumes "ascending c" and "ascending c'" and "limit_of c L" and "limit_of c' L'"
  shows "limit_of (\<lambda>d. concatP (c d) (c' d)) (concatP L L')"
  unfolding limit_of_def
proof (intro allI iffI)
  fix code P r
  assume a: "parse (concatP L L') code P = Some r"
  then obtain x where x: "parse L code P = Some x"
    by (cases "parse L code P") (auto simp: concatP_def)
  with assms(3) obtain d1 where d1: "parse (c d1) code P = Some x"
    unfolding limit_of_def by blast
  show "\<exists>d. parse (concatP (c d) (c' d)) code P = Some r"
  proof (cases x)
    case (Failure ms fi u)
    with a x d1 have "parse (concatP (c d1) (c' d1)) code P = Some r"
      by (auto simp: concatP_def)
    then show ?thesis ..
  next
    case (Success v e)
    with a x obtain y where y: "parse L' code e = Some y"
      by (cases "parse L' code e") (auto simp: concatP_def)
    with assms(4) obtain d2 where d2: "parse (c' d2) code e = Some y"
      unfolding limit_of_def by blast
    have "parse (c (max d1 d2)) code P = Some x"
      by (rule ascending_at [OF assms(1) d1]) simp
    moreover have "parse (c' (max d1 d2)) code e = Some y"
      by (rule ascending_at [OF assms(2) d2]) simp
    ultimately have "parse (concatP (c (max d1 d2)) (c' (max d1 d2))) code P = Some r"
      using a x y Success by (auto simp: concatP_def)
    then show ?thesis ..
  qed
next
  fix code P r
  assume "\<exists>d. parse (concatP (c d) (c' d)) code P = Some r"
  then obtain d where "parse (concatP (c d) (c' d)) code P = Some r" ..
  with below_concat [OF limit_below [OF assms(3), of d] limit_below [OF assms(4), of d]]
  show "parse (concatP L L') code P = Some r" by (simp add: below_def)
qed

lemma limit_union:
  assumes "ascending c" and "ascending c'" and "limit_of c L" and "limit_of c' L'"
  shows "limit_of (\<lambda>d. unionP (c d) (c' d)) (unionP L L')"
  unfolding limit_of_def
proof (intro allI iffI)
  fix code P r
  assume a: "parse (unionP L L') code P = Some r"
  then obtain x where x: "parse L code P = Some x"
    by (cases "parse L code P") (auto simp: unionP_def)
  with assms(3) obtain d1 where d1: "parse (c d1) code P = Some x"
    unfolding limit_of_def by blast
  show "\<exists>d. parse (unionP (c d) (c' d)) code P = Some r"
  proof (cases "\<exists>ms fi u. x = Failure ms fi u \<and> u \<noteq> Some True")
    case False
    with a x d1 have "parse (unionP (c d1) (c' d1)) code P = Some r"
      by (cases x) (auto simp: unionP_def)
    then show ?thesis ..
  next
    case True
    then obtain ms fi u where f: "x = Failure ms fi u" and u: "u \<noteq> Some True" by blast
    with a x obtain y where y: "parse L' code P = Some y"
      by (cases "parse L' code P") (auto simp: unionP_def)
    with assms(4) obtain d2 where d2: "parse (c' d2) code P = Some y"
      unfolding limit_of_def by blast
    have "parse (c (max d1 d2)) code P = Some x"
      by (rule ascending_at [OF assms(1) d1]) simp
    moreover have "parse (c' (max d1 d2)) code P = Some y"
      by (rule ascending_at [OF assms(2) d2]) simp
    ultimately have "parse (unionP (c (max d1 d2)) (c' (max d1 d2))) code P = Some r"
      using a x y f u by (auto simp: unionP_def)
    then show ?thesis ..
  qed
next
  fix code P r
  assume "\<exists>d. parse (unionP (c d) (c' d)) code P = Some r"
  then obtain d where "parse (unionP (c d) (c' d)) code P = Some r" ..
  with below_union [OF limit_below [OF assms(3), of d] limit_below [OF assms(4), of d]]
  show "parse (unionP L L') code P = Some r" by (simp add: below_def)
qed

lemma repeat_loop_limit:
  assumes "ascending c" and "limit_of c L" and "repeat_loop L n code vs i = Some r"
  shows "\<exists>d. repeat_loop (c d) n code vs i = Some r"
proof -
  have "L = L \<longrightarrow> (\<exists>d. repeat_loop (c d) n code vs i = Some r)"
  proof (rule repeat_loop.raw_induct
      [where P = "\<lambda>p n code vs i r. p = L \<longrightarrow> (\<exists>d. repeat_loop (c d) n code vs i = Some r)",
       OF _ assms(3)], goal_cases)
    case (1 rl p n code vs i r)
    show ?case
    proof
      assume p: "p = L"
      show "\<exists>d. repeat_loop (c d) n code vs i = Some r"
      proof (cases "i < length code \<or> length vs < n")
        case False
        with 1(2) have "repeat_loop (c 0) n code vs i = Some r"
          by (subst repeat_loop.simps) simp
        then show ?thesis ..
      next
        case True
        with 1(2) p obtain x where x: "parse L code i = Some x"
          by (cases "parse L code i") auto
        with assms(2) obtain d1 where d1: "parse (c d1) code i = Some x"
          unfolding limit_of_def by blast
        show ?thesis
        proof (cases x)
          case (Failure ms fi u)
          with 1(2) True x p d1 have "repeat_loop (c d1) n code vs i = Some r"
            by (subst repeat_loop.simps) simp
          then show ?thesis ..
        next
          case (Success v e)
          with 1(2) True x p have "rl p n code (vs @ [v]) e = Some r" by simp
          from 1(1) [OF this] p obtain d2 where
            d2: "repeat_loop (c d2) n code (vs @ [v]) e = Some r" by blast
          have "parse (c (max d1 d2)) code i = Some x"
            by (rule ascending_at [OF assms(1) d1]) simp
          moreover have "repeat_loop (c (max d1 d2)) n code (vs @ [v]) e = Some r"
            by (rule repeat_loop_mono [OF d2]) (rule ascending_mono [OF assms(1)], simp)
          ultimately have "repeat_loop (c (max d1 d2)) n code vs i = Some r"
            using True Success by (subst repeat_loop.simps) simp
          then show ?thesis ..
        qed
      qed
    qed
  qed
  then show ?thesis by simp
qed

lemma limit_repeat:
  assumes "ascending c" and "limit_of c L"
  shows "limit_of (\<lambda>d. repeat (c d) n) (repeat L n)"
  unfolding limit_of_def
proof (intro allI iffI)
  fix code P r
  assume "parse (repeat L n) code P = Some r"
  then have "repeat_loop L n code [] P = Some r" by (simp add: repeat_def)
  from repeat_loop_limit [OF assms this]
  show "\<exists>d. parse (repeat (c d) n) code P = Some r" by (simp add: repeat_def)
next
  fix code P r
  assume "\<exists>d. parse (repeat (c d) n) code P = Some r"
  then obtain d where "parse (repeat (c d) n) code P = Some r" ..
  with below_repeat [OF limit_below [OF assms(2), of d], of n]
  show "parse (repeat L n) code P = Some r" by (simp add: below_def)
qed

lemma ascending_build: "ascending (\<lambda>d. build d env g)"
  by (simp add: ascending_def build_Suc)

lemma parser_of_limit: "parser_of env g p \<longleftrightarrow> limit_of (\<lambda>d. build d env g) p"
  by (simp add: parser_of_def limit_of_def returns_def)

lemma parser_of_match: "parser_of env (MatchE f m) (match f m)"
  by (simp add: parser_of_limit limit_const)

lemma parser_of_word: "parser_of env (WordE w) (word w)"
  by (simp add: parser_of_limit limit_const)

lemma parser_of_NONE: "parser_of env NoneE NONE"
  by (simp add: parser_of_limit limit_const)

lemma parser_of_dynamic:
  assumes "parser_of env (env x) p"
  shows "parser_of env (DynamicE x) (dynamic (\<lambda>_. p))"
  using assms returns_dynamic [of env x] by (simp add: parser_of_def dynamic_def)

lemma parser_of_map: "parser_of env g p \<Longrightarrow> parser_of env (MapE g f) (mapP p f)"
  by (simp add: parser_of_limit limit_map)

lemma parser_of_mapFailMessages:
  "parser_of env g p \<Longrightarrow> parser_of env (MapFailMessagesE g f) (mapFailMessages p f)"
  by (simp add: parser_of_limit limit_mapFailMessages)

lemma parser_of_concat:
  "parser_of env g p \<Longrightarrow> parser_of env h q \<Longrightarrow> parser_of env (ConcatE g h) (concatP p q)"
  by (simp add: parser_of_limit limit_concat ascending_build)

lemma parser_of_join:
  assumes "parser_of env g p" and "parser_of env h q"
  shows "parser_of env (JoinE g h) (join p q)"
proof -
  from assms have "limit_of (\<lambda>d. concatP (build d env g) (build d env h)) (concatP p q)"
    by (simp add: parser_of_limit limit_concat ascending_build)
  from limit_map [OF this] show ?thesis
    by (simp add: parser_of_limit join_def)
qed

lemma parser_of_joinRight:
  assumes "parser_of env g p" and "parser_of env h q"
  shows "parser_of env (JoinRightE g h) (joinRight p q)"
proof -
  from assms have "limit_of (\<lambda>d. concatP (build d env g) (build d env h)) (concatP p q)"
    by (simp add: parser_of_limit limit_concat ascending_build)
  from limit_map [OF this] show ?thesis
    by (simp add: parser_of_limit joinRight_def)
qed

lemma parser_of_unReversible:
  "parser_of env g p \<Longrightarrow> parser_of env (UnReversibleE g) (unReversible p)"
  by (simp add: parser_of_limit limit_unReversible)

lemma parser_of_union:
  "parser_of env g p \<Longrightarrow> parser_of env h q \<Longrightarrow> parser_of env (UnionE g h) (unionP p q)"
  by (simp add: parser_of_limit limit_union ascending_build)

lemma parser_of_repeat:
  "parser_of env g p \<Longrightarrow> parser_of env (RepeatE g n) (repeat p n)"
  by (simp add: parser_of_limit limit_repeat ascending_build)

lemma parser_of_wrap: "parser_of env g p \<Longrightarrow> parser_of env (WrapE g) (wrap p)"
  by (simp add: parser_of_limit limit_wrap)

lemma parser_of_option:
  assumes "parser_of env g p"
  shows "parser_of env (OptionE g) (option p)"
proof -
  from assms have "limit_of (\<lambda>d. unionP (build d env g) NONE) (unionP p NONE)"
    by (simp add: parser_of_limit limit_union limit_const ascending_build ascending_const)
  then show ?thesis by (simp add: parser_of_limit option_def)
qed

lemma parser_of_unique:
  assumes "parser_of env g p" and "parser_of env g q"
  shows "p = q"
proof -
  have "parse p code P = parse q code P" for code P
  proof (cases "parse p code P")
    case None
    show ?thesis
    proof (cases "parse q code P")
      case n: None
      with None show ?thesis by simp
    next
      case (Some r)
      with assms(2) have "returns env g code P r" unfolding parser_of_def by blast
      with assms(1) have "parse p code P = Some r" unfolding parser_of_def by blast
      with None show ?thesis by simp
    qed
  next
    case (Some r)
    with assms(1) have "returns env g code P r" unfolding parser_of_def by blast
    with assms(2) have "parse q code P = Some r" unfolding parser_of_def by blast
    with Some show ?thesis by simp
  qed
  then have "parse p = parse q" by (intro ext)
  then show ?thesis by (simp add: parser.expand)
qed

lemma parser_of_exists: "\<exists>p. parser_of env g p"
proof -
  have "\<forall>x. \<exists>y. (y = None \<and> \<not> (\<exists>r. returns env g (fst x) (snd x) r))
              \<or> (\<exists>r. y = Some r \<and> returns env g (fst x) (snd x) r)"
    by auto
  from choice [OF this] obtain f where
    f: "\<And>x. (f x = None \<and> \<not> (\<exists>r. returns env g (fst x) (snd x) r))
              \<or> (\<exists>r. f x = Some r \<and> returns env g (fst x) (snd x) r)"
    by blast
  have "parser_of env g (Parser (\<lambda>code P. f (code, P)))"
    unfolding parser_of_def
  proof (intro allI iffI)
    fix code P r
    assume "parse (Parser (\<lambda>code P. f (code, P))) code P = Some r"
    with f [of "(code, P)"] show "returns env g code P r" by auto
  next
    fix code P r
    assume r: "returns env g code P r"
    with f [of "(code, P)"] obtain r' where
      "f (code, P) = Some r'" and "returns env g code P r'" by auto
    with r returns_deterministic [of env g code P r r']
    show "parse (Parser (\<lambda>code P. f (code, P))) code P = Some r" by simp
  qed
  then show ?thesis ..
qed

section \<open>Primitive matchers\<close>

text \<open>
  Claim C7. For every predicate and message builder, every input \<open>code\<close> and every
  start position \<open>P\<close>, \<open>Parser.match(predicate, getMessage).parse(code, P)\<close> hands the
  predicate the character at \<open>P\<close>, or the empty string when \<open>P\<close> is at or past the end
  of the input. If the predicate holds, the result is a Success with that character
  as value and end position \<open>P + 1\<close>; otherwise it is a Failure at \<open>P\<close> with exactly one
  message, the message builder applied to that character, and no commit flag.
\<close>

theorem match_spec:
  fixes p :: "'u parser"
  assumes "character = (if P < length code then [code ! P] else [])"
    and "p = match filter' getMessage"
  shows "(filter' character \<longrightarrow>
            parse p code P = Some (Success (Str character) (P + 1)))
       \<and> (\<not> filter' character \<longrightarrow>
            parse p code P = Some (Failure [getMessage character] P None))"
  using assms by (simp add: match_def char_at_def)

theorem match_spec_witness:
  "parse (match (\<lambda>c. c = lit ''x'') default_getMessage :: unit parser) (lit ''x'') 0
       = Some (Success (Str (lit ''x'')) 1)
   \<and> parse (match (\<lambda>c. c = lit ''x'') default_getMessage :: unit parser) (lit ''y'') 0
       = Some (Failure [default_getMessage (lit ''y'')] 0 None)
   \<and> parse (match (\<lambda>c. c = []) default_getMessage :: unit parser) (lit ''y'') 1
       = Some (Success (Str []) (1 + 1))"
proof -
  let ?x = "match (\<lambda>c. c = lit ''x'') default_getMessage :: unit parser"
  let ?e = "match (\<lambda>c. c = []) default_getMessage :: unit parser"
  have a: "lit ''x'' = (if 0 < length (lit ''x'') then [lit ''x'' ! 0] else [])"
    and b: "lit ''y'' = (if 0 < length (lit ''y'') then [lit ''y'' ! 0] else [])"
    and c: "[] = (if 1 < length (lit ''y'') then [lit ''y'' ! 1] else [])"
    by (simp_all add: lit_def)
  have "parse ?x (lit ''x'') 0 = Some (Success (Str (lit ''x'')) (0 + 1))"
    using match_spec [OF a refl, where 'u = unit and getMessage = default_getMessage] by simp
  moreover have "parse ?x (lit ''y'') 0 = Some (Failure [default_getMessage (lit ''y'')] 0 None)"
    using match_spec [OF b refl, where 'u = unit and getMessage = default_getMessage
        and filter' = "\<lambda>c. c = lit ''x''"]
    by (simp add: lit_def)
  moreover have "parse ?e (lit ''y'') 1 = Some (Success (Str []) (1 + 1))"
    using match_spec [OF c refl, where 'u = unit and getMessage = default_getMessage] by simp
  ultimately show ?thesis by simp
qed

text \<open>
  Claim C5. For every non-empty literal, every input \<open>code\<close> and every start position
  \<open>P\<close>, \<open>word(literal).parse(code, P)\<close> succeeds exactly when the characters of
  \<open>code\<close> at \<open>P\<close> to \<open>P + length(literal) - 1\<close> equal the literal one by one; the value
  is then the literal and the end position \<open>P + length(literal)\<close>; a failure is at the
  index of the first mismatching character, with no commit flag.

  The characters after the first are taken from \<open>word.substring(1)\<close> by \<open>for \<dots> of\<close>,
  which walks code points, while \<open>match\<close> reads one code unit \<open>code[startIndex]\<close>. A
  surrogate pair after the first code unit of the literal therefore becomes one
  two-unit \<open>character\<close>, which no single code unit equals. The literal \<open>a\<close> followed by
  U+1F600 (code units \<open>0x61 0xD83D 0xDE00\<close>) fails on the identical input, at index 1,
  although the input equals the literal at \<open>0..2\<close>.
\<close>

theorem word_surrogate_pair_fails:
  "take (length [0x61, 0xD83D, 0xDE00 :: code_unit]) (drop 0 [0x61, 0xD83D, 0xDE00])
     = [0x61, 0xD83D, 0xDE00 :: code_unit]
   \<and> parse (word [0x61, 0xD83D, 0xDE00] :: unit parser) [0x61, 0xD83D, 0xDE00] 0
     = Some (Failure [next_message [0x61, 0xD83D, 0xDE00] [0xD83D, 0xDE00] [0xD83D]] 1 None)"
  by (simp add: eval_defs wrap_def concatP_def)

text \<open>
  For every literal with no surrogate pair after its first code unit the claim holds
  as stated, and the call returns.
\<close>

theorem word_spec:
  fixes w :: jsstring and p :: "'u parser"
  assumes "w \<noteq> []" and "no_surrogate_pair (tl w)" and "p = word w"
  shows "((\<exists>v e. parse p code P = Some (Success v e))
            \<longleftrightarrow> take (length w) (drop P code) = w)
       \<and> (\<forall>v e. parse p code P = Some (Success v e) \<longrightarrow>
            v = Str w \<and> e = P + length w)
       \<and> (\<forall>ms fi u. parse p code P = Some (Failure ms fi u) \<longrightarrow>
            fi = P + first_mismatch w (drop P code) \<and> u = None)
       \<and> parse p code P \<noteq> None"
proof -
  from assms(1) obtain c0 cs where w: "w = c0 # cs" by (cases w) auto
  with assms(2) have "no_surrogate_pair cs" by simp
  from word_parse [OF this, of c0 P code, where 'u = 'u]
    first_mismatch_full [of w "drop P code"]
  show ?thesis unfolding w assms(3) by (auto split: if_splits)
qed

theorem word_spec_witness:
  "lit ''xy'' \<noteq> [] \<and> no_surrogate_pair (tl (lit ''xy''))
   \<and> parse (word (lit ''xy'') :: unit parser) (lit ''axyb'') 1 = Some (Success (Str (lit ''xy'')) 3)
   \<and> (\<exists>ms. parse (word (lit ''xy'') :: unit parser) (lit ''axzb'') 1 = Some (Failure ms 2 None))"
proof -
  have ne: "lit ''xy'' \<noteq> []" and ns: "no_surrogate_pair (tl (lit ''xy''))"
    by (simp_all add: lit_def)
  have m: "1 + first_mismatch (lit ''xy'') (drop 1 (lit ''axzb'')) = 2"
    and t': "take (length (lit ''xy'')) (drop 1 (lit ''axzb'')) \<noteq> lit ''xy''"
    by (simp_all add: lit_def)
  have t: "take (length (lit ''xy'')) (drop 1 (lit ''axyb'')) = lit ''xy''"
    by (simp add: lit_def)
  from word_spec [OF ne ns refl, where 'u = unit and code = "lit ''axyb''" and P = 1] t
  have "parse (word (lit ''xy'') :: unit parser) (lit ''axyb'') 1
          = Some (Success (Str (lit ''xy'')) (1 + length (lit ''xy'')))"
    by blast
  moreover have "1 + length (lit ''xy'') = 3" by (simp add: lit_def)
  moreover
  have "\<exists>ms. parse (word (lit ''xy'') :: unit parser) (lit ''axzb'') 1 = Some (Failure ms 2 None)"
  proof -
    note w = word_spec [OF ne ns refl, where 'u = unit and code = "lit ''axzb''" and P = 1]
    from w obtain r where r: "parse (word (lit ''xy'') :: unit parser) (lit ''axzb'') 1 = Some r"
      by blast
    show ?thesis
    proof (cases r)
      case (Success v e)
      with w r t' show ?thesis by blast
    next
      case (Failure ms fi u)
      with w r have "fi = 1 + first_mismatch (lit ''xy'') (drop 1 (lit ''axzb''))" and "u = None"
        by blast+
      with m r Failure show ?thesis by simp
    qed
  qed
  ultimately show ?thesis using ne ns by simp
qed

text \<open>
  Claim C6. Calling \<open>word\<close> with the empty string fails fast at construction time
  instead of returning a parser that reports an ordinary parse Failure.

  \<open>word\<close> has no \<open>throw\<close> and no check of its argument, and nothing it calls can
  raise: the call returns a parser, and here that parser reports an ordinary Failure
  when it is run.
\<close>

theorem word_empty_counterexample:
  "parse (word [] :: unit parser) (lit ''a'') 0
     = Some (Failure [first_message [] (lit ''a'')] 0 None)"
  by (simp add: eval_defs)

text \<open>
  Claim C6, as the code has it by design: calling \<open>word\<close> with the empty string
  does not fail at construction time. It returns a parser, and every call of
  \<open>parse\<close> on that parser returns a Result, on every input and at every start
  position. Which Result that is for the empty literal is left open here: the
  parser compares with \<open>word[0]\<close>, which is \<open>undefined\<close> for the empty string, and so
  does not do what the documentation of \<open>word\<close> describes.
\<close>

theorem word_empty_returns_parser:
  "\<exists>r. parse (word [] :: 'u parser) code P = Some r"
  by (simp add: word_def substring_def match_def Let_def)

theorem word_empty_returns_parser_witness:
  "\<exists>r. parse (word [] :: unit parser) (lit ''a'') 0 = Some r"
  using word_empty_returns_parser [where 'u = unit and code = "lit ''a''" and P = 0] .

section \<open>Sequencing\<close>

text \<open>
  Claim C4. For all parsers \<open>a\<close> and \<open>b\<close>, every input and every start position \<open>P\<close>,
  \<open>a.concat(b)\<close> succeeds if and only if \<open>a\<close> succeeds at \<open>P\<close> and \<open>b\<close> succeeds at the
  end position of \<open>a\<close>; its value is then the pair of both values and its end
  position the one of \<open>b\<close>. A Failure of \<open>a\<close>, or of \<open>b\<close> after \<open>a\<close> succeeded, is
  returned as it is, with its messages, fail position and commit flag.
\<close>

theorem concat_spec:
  "((\<exists>v e. parse (concatP a b) code P = Some (Success v e)) \<longleftrightarrow>
      (\<exists>va ea vb eb. parse a code P = Some (Success va ea)
                    \<and> parse b code ea = Some (Success vb eb)))
 \<and> (parse a code P = Some (Success va ea) \<and> parse b code ea = Some (Success vb eb) \<longrightarrow>
      parse (concatP a b) code P = Some (Success (Array [va, vb]) eb))
 \<and> (parse a code P = Some (Failure ms fi u) \<longrightarrow>
      parse (concatP a b) code P = Some (Failure ms fi u))
 \<and> (parse a code P = Some (Success va ea) \<and> parse b code ea = Some (Failure ms fi u) \<longrightarrow>
      parse (concatP a b) code P = Some (Failure ms fi u))"
  by (auto simp: concatP_def split: option.splits result.splits)

theorem concat_spec_witness:
  "parse (concatP (word (lit ''x'')) (word (lit ''y'')) :: unit parser) (lit ''xy'') 0
     = Some (Success (Array [Str (lit ''x''), Str (lit ''y'')]) 2)
 \<and> parse (concatP (unReversible (word (lit ''x''))) never_returns :: unit parser) (lit ''a'') 0
     = Some (Failure [first_message (lit ''x'') (lit ''a'')] 0 (Some True))
 \<and> parse (concatP (word (lit ''x'')) (word (lit ''y'')) :: unit parser) (lit ''xa'') 0
     = Some (Failure [first_message (lit ''y'') (lit ''a'')] 1 None)"
proof -
  let ?x = "word (lit ''x'') :: unit parser" and ?y = "word (lit ''y'') :: unit parser"
  have x0: "parse ?x (lit ''xy'') 0 = Some (Success (Str (lit ''x'')) 1)"
    and y1: "parse ?y (lit ''xy'') 1 = Some (Success (Str (lit ''y'')) 2)"
    and xa: "parse (unReversible ?x) (lit ''a'') 0
               = Some (Failure [first_message (lit ''x'') (lit ''a'')] 0 (Some True))"
    and x0': "parse ?x (lit ''xa'') 0 = Some (Success (Str (lit ''x'')) 1)"
    and ya: "parse ?y (lit ''xa'') 1 = Some (Failure [first_message (lit ''y'') (lit ''a'')] 1 None)"
    by (simp_all add: eval_defs unReversible_def)
  from concat_spec [where a = ?x and b = ?y and code = "lit ''xy''" and P = 0
      and va = "Str (lit ''x'')" and ea = 1 and vb = "Str (lit ''y'')" and eb = 2] x0 y1
  have "parse (concatP ?x ?y) (lit ''xy'') 0
          = Some (Success (Array [Str (lit ''x''), Str (lit ''y'')]) 2)"
    by blast
  moreover
  from concat_spec [where a = "unReversible ?x" and b = never_returns and code = "lit ''a''"
      and P = 0 and ms = "[first_message (lit ''x'') (lit ''a'')]" and fi = 0 and u = "Some True"] xa
  have "parse (concatP (unReversible ?x) never_returns) (lit ''a'') 0
          = Some (Failure [first_message (lit ''x'') (lit ''a'')] 0 (Some True))"
    by blast
  moreover
  from concat_spec [where a = ?x and b = ?y and code = "lit ''xa''" and P = 0
      and va = "Str (lit ''x'')" and ea = 1
      and ms = "[first_message (lit ''y'') (lit ''a'')]" and fi = 1 and u = None] x0' ya
  have "parse (concatP ?x ?y) (lit ''xa'') 0
          = Some (Failure [first_message (lit ''y'') (lit ''a'')] 1 None)"
    by blast
  ultimately show ?thesis by blast
qed

section \<open>Alternation\<close>

text \<open>
  Claim C1. For all parsers \<open>a\<close> and \<open>b\<close>, every input and every start position \<open>P\<close>:
  when \<open>a\<close> succeeds, \<open>a.union(b)\<close> returns the Success of \<open>a\<close> without calling \<open>b\<close>;
  when \<open>a\<close> fails with \<open>unReversible\<close> true, it returns that Failure unchanged without
  calling \<open>b\<close>; when \<open>a\<close> fails otherwise, it runs \<open>b\<close> at the same position \<open>P\<close> and
  returns the Success of \<open>b\<close>, or the Failure of \<open>b\<close> as it is when that one has
  \<open>unReversible\<close> true; and when neither Failure has it, the result is a Failure at
  \<open>P\<close> whose messages are those of \<open>a\<close> followed by those of \<open>b\<close>, with no commit flag.
  That \<open>b\<close> is not called shows in the first two parts holding for every \<open>b\<close>, also
  one that never returns.
\<close>

theorem union_spec:
  "(parse a code P = Some (Success v e) \<longrightarrow>
      parse (unionP a b) code P = Some (Success v e))
 \<and> (parse a code P = Some (Failure ms fi (Some True)) \<longrightarrow>
      parse (unionP a b) code P = Some (Failure ms fi (Some True)))
 \<and> (parse a code P = Some (Failure ms fi u) \<and> u \<noteq> Some True \<longrightarrow>
      (parse b code P = Some (Success v' e') \<longrightarrow>
         parse (unionP a b) code P = Some (Success v' e'))
    \<and> (parse b code P = Some (Failure ms' fi' (Some True)) \<longrightarrow>
         parse (unionP a b) code P = Some (Failure ms' fi' (Some True)))
    \<and> (parse b code P = Some (Failure ms' fi' u') \<and> u' \<noteq> Some True \<longrightarrow>
         parse (unionP a b) code P = Some (Failure (ms @ ms') P None)))"
  by (simp add: unionP_def)

theorem union_spec_witness:
  "parse (unionP (word (lit ''x'')) never_returns :: unit parser) (lit ''x'') 0
     = Some (Success (Str (lit ''x'')) 1)
 \<and> parse (unionP (unReversible (word (lit ''x''))) never_returns :: unit parser) (lit ''a'') 0
     = Some (Failure [first_message (lit ''x'') (lit ''a'')] 0 (Some True))
 \<and> parse (unionP (word (lit ''x'')) (word (lit ''y'')) :: unit parser) (lit ''y'') 0
     = Some (Success (Str (lit ''y'')) 1)
 \<and> parse (unionP (word (lit ''x'')) (unReversible (word (lit ''y''))) :: unit parser) (lit ''ba'') 1
     = Some (Failure [first_message (lit ''y'') (lit ''a'')] 1 (Some True))
 \<and> parse (unionP (word (lit ''x'')) (word (lit ''y'')) :: unit parser) (lit ''ba'') 1
     = Some (Failure [first_message (lit ''x'') (lit ''a''), first_message (lit ''y'') (lit ''a'')]
          1 None)"
proof -
  let ?x = "word (lit ''x'') :: unit parser" and ?y = "word (lit ''y'') :: unit parser"
  have xx: "parse ?x (lit ''x'') 0 = Some (Success (Str (lit ''x'')) 1)"
    and ux: "parse (unReversible ?x) (lit ''a'') 0
               = Some (Failure [first_message (lit ''x'') (lit ''a'')] 0 (Some True))"
    and xy: "parse ?x (lit ''y'') 0 = Some (Failure [first_message (lit ''x'') (lit ''y'')] 0 None)"
    and yy: "parse ?y (lit ''y'') 0 = Some (Success (Str (lit ''y'')) 1)"
    and xa: "parse ?x (lit ''ba'') 1 = Some (Failure [first_message (lit ''x'') (lit ''a'')] 1 None)"
    and ya: "parse ?y (lit ''ba'') 1 = Some (Failure [first_message (lit ''y'') (lit ''a'')] 1 None)"
    and uy: "parse (unReversible ?y) (lit ''ba'') 1
               = Some (Failure [first_message (lit ''y'') (lit ''a'')] 1 (Some True))"
    by (simp_all add: eval_defs unReversible_def)
  have n: "(None :: bool option) \<noteq> Some True" by simp
  from union_spec [where a = ?x and b = never_returns and code = "lit ''x''" and P = 0
      and v = "Str (lit ''x'')" and e = 1] xx
  have "parse (unionP ?x never_returns) (lit ''x'') 0 = Some (Success (Str (lit ''x'')) 1)"
    by blast
  moreover
  from union_spec [where a = "unReversible ?x" and b = never_returns and code = "lit ''a''"
      and P = 0 and ms = "[first_message (lit ''x'') (lit ''a'')]" and fi = 0] ux
  have "parse (unionP (unReversible ?x) never_returns) (lit ''a'') 0
          = Some (Failure [first_message (lit ''x'') (lit ''a'')] 0 (Some True))"
    by blast
  moreover
  from union_spec [where a = ?x and b = ?y and code = "lit ''y''" and P = 0
      and ms = "[first_message (lit ''x'') (lit ''y'')]" and fi = 0 and u = None
      and v' = "Str (lit ''y'')" and e' = 1] xy yy n
  have "parse (unionP ?x ?y) (lit ''y'') 0 = Some (Success (Str (lit ''y'')) 1)"
    by blast
  moreover
  from union_spec [where a = ?x and b = "unReversible ?y" and code = "lit ''ba''" and P = 1
      and ms = "[first_message (lit ''x'') (lit ''a'')]" and fi = 1 and u = None
      and ms' = "[first_message (lit ''y'') (lit ''a'')]" and fi' = 1] xa uy n
  have "parse (unionP ?x (unReversible ?y)) (lit ''ba'') 1
          = Some (Failure [first_message (lit ''y'') (lit ''a'')] 1 (Some True))"
    by blast
  moreover
  from union_spec [where a = ?x and b = ?y and code = "lit ''ba''" and P = 1
      and ms = "[first_message (lit ''x'') (lit ''a'')]" and fi = 1 and u = None
      and ms' = "[first_message (lit ''y'') (lit ''a'')]" and fi' = 1 and u' = None] xa ya n
  have "parse (unionP ?x ?y) (lit ''ba'') 1
          = Some (Failure ([first_message (lit ''x'') (lit ''a'')]
                           @ [first_message (lit ''y'') (lit ''a'')]) 1 None)"
    by blast
  ultimately show ?thesis by simp
qed

text \<open>
  Claim C8. For every parser \<open>p\<close>, every input and every start position,
  \<open>p.option()\<close> returns a Failure only when \<open>p\<close> fails with \<open>unReversible\<close> true, and
  then it returns that Failure; when \<open>p\<close> fails without it, \<open>p.option()\<close> succeeds
  with the value \<open>null\<close> and the start position as end position.
\<close>

theorem option_spec:
  "(parse (option p) code P = Some (Failure ms fi u) \<longrightarrow>
      parse p code P = Some (Failure ms fi u) \<and> u = Some True)
 \<and> (parse p code P = Some (Failure ms fi u) \<and> u \<noteq> Some True \<longrightarrow>
      parse (option p) code P = Some (Success Null P))
 \<and> (parse p code P = Some (Failure ms fi (Some True)) \<longrightarrow>
      parse (option p) code P = Some (Failure ms fi (Some True)))"
  by (auto simp: option_def unionP_def NONE_def split: option.splits result.splits if_splits)

theorem option_spec_witness:
  "parse (option (word (lit ''x'')) :: unit parser) (lit ''by'') 1 = Some (Success Null 1)
 \<and> parse (option (unReversible (word (lit ''x''))) :: unit parser) (lit ''by'') 1
     = Some (Failure [first_message (lit ''x'') (lit ''y'')] 1 (Some True))
 \<and> parse (unReversible (word (lit ''x'')) :: unit parser) (lit ''by'') 1
     = Some (Failure [first_message (lit ''x'') (lit ''y'')] 1 (Some True))"
proof -
  let ?x = "word (lit ''x'') :: unit parser"
  have xy: "parse ?x (lit ''by'') 1 = Some (Failure [first_message (lit ''x'') (lit ''y'')] 1 None)"
    and uy: "parse (unReversible ?x) (lit ''by'') 1
               = Some (Failure [first_message (lit ''x'') (lit ''y'')] 1 (Some True))"
    by (simp_all add: eval_defs unReversible_def)
  have n: "(None :: bool option) \<noteq> Some True" by simp
  from option_spec [where p = ?x and code = "lit ''by''" and P = 1
      and ms = "[first_message (lit ''x'') (lit ''y'')]" and fi = 1 and u = None] xy n
  have "parse (option ?x) (lit ''by'') 1 = Some (Success Null 1)"
    by blast
  moreover
  from option_spec [where p = "unReversible ?x" and code = "lit ''by''" and P = 1
      and ms = "[first_message (lit ''x'') (lit ''y'')]" and fi = 1 and u = "Some True"] uy
  have "parse (option (unReversible ?x)) (lit ''by'') 1
          = Some (Failure [first_message (lit ''x'') (lit ''y'')] 1 (Some True))"
    by blast
  ultimately show ?thesis using uy by blast
qed

section \<open>Repetition\<close>

text \<open>
  Claim C2. For every parser \<open>p\<close>, minimum \<open>n\<close>, input and start position \<open>P\<close>: after
  \<open>k\<close> successful iterations that collected the values \<open>vs\<close> and ended at \<open>j\<close>, a
  Failure of \<open>p\<close> in the next iteration is the result of \<open>p.repeat(n)\<close>, as it is,
  whenever it has \<open>unReversible\<close> true or \<open>k < n\<close>; a Failure without the flag when
  \<open>n \<le> k\<close>, and the end of the input when \<open>n \<le> k\<close>, make \<open>p.repeat(n)\<close> succeed
  with the values \<open>vs\<close> in order and the end position \<open>j\<close>, which is where the last
  successful iteration ended and \<open>P\<close> when there was none.
\<close>

theorem repeat_spec:
  assumes "accumulated p n code P k = Some (vs, j)"
  shows "(parse p code j = Some (Failure ms fi u) \<and> (j < length code \<or> k < n)
            \<and> (u = Some True \<or> k < n) \<longrightarrow>
          parse (repeat p n) code P = Some (Failure ms fi u))
       \<and> (parse p code j = Some (Failure ms fi u) \<and> j < length code
            \<and> u \<noteq> Some True \<and> n \<le> k \<longrightarrow>
          parse (repeat p n) code P = Some (Success (Array vs) j))
       \<and> (length code \<le> j \<and> n \<le> k \<longrightarrow>
          parse (repeat p n) code P = Some (Success (Array vs) j))"
proof -
  have len: "length vs = k" using assms by (rule accumulated_length)
  have eq: "parse (repeat p n) code P = repeat_loop p n code vs j"
    using repeat_loop_accumulated [OF assms] by (simp add: repeat_def)
  show ?thesis
    unfolding eq using len by (subst (1 2 3) repeat_loop.simps) auto
qed

theorem repeat_spec_witness:
  "accumulated (word (lit ''x'') :: unit parser) 1 (lit ''ya'') 0 0 = Some ([], 0)
 \<and> parse (repeat (word (lit ''x'')) 1 :: unit parser) (lit ''ya'') 0
     = Some (Failure [first_message (lit ''x'') (lit ''y'')] 0 None)
 \<and> accumulated (unReversible (word (lit ''x'')) :: unit parser) 0 (lit ''xa'') 0 1
     = Some ([Str (lit ''x'')], 1)
 \<and> parse (repeat (unReversible (word (lit ''x''))) 0 :: unit parser) (lit ''xa'') 0
     = Some (Failure [first_message (lit ''x'') (lit ''a'')] 1 (Some True))
 \<and> accumulated (word (lit ''x'') :: unit parser) 1 (lit ''xxa'') 0 2
     = Some ([Str (lit ''x''), Str (lit ''x'')], 2)
 \<and> parse (repeat (word (lit ''x'')) 1 :: unit parser) (lit ''xxa'') 0
     = Some (Success (Array [Str (lit ''x''), Str (lit ''x'')]) 2)
 \<and> accumulated (word (lit ''x'') :: unit parser) 1 (lit ''xx'') 0 2
     = Some ([Str (lit ''x''), Str (lit ''x'')], 2)
 \<and> parse (repeat (word (lit ''x'')) 1 :: unit parser) (lit ''xx'') 0
     = Some (Success (Array [Str (lit ''x''), Str (lit ''x'')]) 2)
 \<and> accumulated (word (lit ''x'') :: unit parser) 0 [] 0 0 = Some ([], 0)
 \<and> parse (repeat (word (lit ''x'')) 0 :: unit parser) [] 0 = Some (Success (Array []) 0)"
proof -
  let ?x = "word (lit ''x'') :: unit parser"
  have a5: "accumulated ?x 0 [] 0 0 = Some ([], 0)"
    by simp
  have a1: "accumulated ?x 1 (lit ''ya'') 0 0 = Some ([], 0)"
    by simp
  have a2: "accumulated (unReversible ?x) 0 (lit ''xa'') 0 1 = Some ([Str (lit ''x'')], 1)"
    by (simp add: eval_defs unReversible_def)
  have a3: "accumulated ?x 1 (lit ''xxa'') 0 2 = Some ([Str (lit ''x''), Str (lit ''x'')], 2)"
    by (simp add: eval_defs numeral_2_eq_2)
  have a4: "accumulated ?x 1 (lit ''xx'') 0 2 = Some ([Str (lit ''x''), Str (lit ''x'')], 2)"
    by (simp add: eval_defs numeral_2_eq_2)
  have f1: "parse ?x (lit ''ya'') 0 = Some (Failure [first_message (lit ''x'') (lit ''y'')] 0 None)"
    and f2: "parse (unReversible ?x) (lit ''xa'') 1
               = Some (Failure [first_message (lit ''x'') (lit ''a'')] 1 (Some True))"
    and f3: "parse ?x (lit ''xxa'') 2 = Some (Failure [first_message (lit ''x'') (lit ''a'')] 2 None)"
    by (simp_all add: eval_defs unReversible_def)
  have l1: "(1::nat) < length (lit ''xa'')" and l3: "(2::nat) < length (lit ''xxa'')"
    and l4: "length (lit ''xx'') \<le> (2::nat)"
    by (simp_all add: lit_def)
  have n: "(None :: bool option) \<noteq> Some True" by simp
  from repeat_spec [OF a1, where ms = "[first_message (lit ''x'') (lit ''y'')]" and fi = 0
      and u = None] f1
  have "parse (repeat ?x 1) (lit ''ya'') 0
          = Some (Failure [first_message (lit ''x'') (lit ''y'')] 0 None)"
    by simp
  moreover
  from repeat_spec [OF a2, where ms = "[first_message (lit ''x'') (lit ''a'')]" and fi = 1
      and u = "Some True"] f2 l1
  have "parse (repeat (unReversible ?x) 0) (lit ''xa'') 0
          = Some (Failure [first_message (lit ''x'') (lit ''a'')] 1 (Some True))"
    by blast
  moreover
  from repeat_spec [OF a3, where ms = "[first_message (lit ''x'') (lit ''a'')]" and fi = 2
      and u = None] f3 l3 n
  have "parse (repeat ?x 1) (lit ''xxa'') 0
          = Some (Success (Array [Str (lit ''x''), Str (lit ''x'')]) 2)"
    by simp
  moreover
  from repeat_spec [OF a4] l4
  have "parse (repeat ?x 1) (lit ''xx'') 0
          = Some (Success (Array [Str (lit ''x''), Str (lit ''x'')]) 2)"
    by simp
  moreover
  from repeat_spec [OF a5]
  have "parse (repeat ?x 0) [] 0 = Some (Success (Array []) 0)"
    by simp
  ultimately show ?thesis using a1 a2 a3 a4 a5 by blast
qed

text \<open>
  Claim C3. For every parser \<open>p\<close>, every input and every start position,
  \<open>p.repeat(0)\<close> returns a Success, possibly with an empty sequence.

  The loop hands on a Failure that has \<open>unReversible\<close> true whatever the minimum is
  (the documentation of \<open>unReversible\<close> shows \<open>x.unReversible().repeat().parse('a')\<close>
  failing), and it does not end when \<open>p\<close> keeps succeeding without consuming input.
\<close>

theorem repeat_zero_counterexample:
  "parse (repeat (unReversible (word (lit ''x''))) 0 :: unit parser) (lit ''a'') 0
     = Some (Failure [first_message (lit ''x'') (lit ''a'')] 0 (Some True))
 \<and> parse (repeat NONE 0 :: unit parser) (lit ''a'') 0 = None"
proof
  show "parse (repeat (unReversible (word (lit ''x''))) 0 :: unit parser) (lit ''a'') 0
     = Some (Failure [first_message (lit ''x'') (lit ''a'')] 0 (Some True))"
    by (simp add: repeat_def repeat_loop.simps eval_defs unReversible_def)
  show "parse (repeat NONE 0 :: unit parser) (lit ''a'') 0 = None"
    by (rule repeat_NONE_diverges) (simp add: lit_def)
qed

text \<open>
  Claim C3, as the code has it: when, at every position inside the input, \<open>p\<close>
  returns and either fails without \<open>unReversible\<close> true or succeeds with an end
  position greater than the position it started at, \<open>p.repeat(0)\<close> returns a Success
  with a (possibly empty) sequence of values, at every start position.
\<close>

theorem repeat_zero_succeeds:
  assumes "\<forall>i<length code. \<exists>r. parse p code i = Some r \<and>
             (case r of Success v e \<Rightarrow> i < e | Failure ms fi u \<Rightarrow> u \<noteq> Some True)"
  shows "\<exists>vs e. parse (repeat p 0) code P = Some (Success (Array vs) e)"
  using repeat_loop_total [OF assms] by (simp add: repeat_def)

theorem repeat_zero_succeeds_witness:
  "(\<exists>vs e. parse (repeat (word (lit ''x'')) 0 :: unit parser) (lit ''xxa'') 0
       = Some (Success (Array vs) e))
 \<and> (\<exists>vs e. parse (repeat (word (lit ''x'')) 0 :: unit parser) [] 0
       = Some (Success (Array vs) e))"
proof -
  have h: "\<forall>i<length code. \<exists>r. parse (word (lit ''x'') :: unit parser) code i = Some r \<and>
       (case r of Success v e \<Rightarrow> i < e | Failure ms fi u \<Rightarrow> u \<noteq> Some True)" for code
    by (simp add: word_def substring_def match_def lit_def char_at_def Let_def)
  from repeat_zero_succeeds [OF h, of "lit ''xxa''" 0] repeat_zero_succeeds [OF h, of "[]" 0]
  show ?thesis by blast
qed

section \<open>Invariants of the results of API-built parsers\<close>

text \<open>
  Claim C9. For every parser built from the public API (\<open>match\<close>, \<open>word\<close>, \<open>NONE\<close>,
  \<open>dynamic\<close>, \<open>map\<close>, \<open>mapFailMessages\<close>, \<open>concat\<close>, \<open>join\<close>, \<open>joinRight\<close>,
  \<open>unReversible\<close>, \<open>union\<close>, \<open>repeat\<close>, \<open>wrap\<close>, \<open>option\<close>), every input and every start
  position, the \<open>endIndex\<close> of a Success that \<open>parse\<close> returns is greater than or equal
  to the start position. The parser is any expression \<open>g\<close> over any bindings \<open>env\<close>,
  so grammars that refer to themselves through \<open>dynamic\<close> are included; the example
  is the grammar of nested parentheses on the input \<open>x(())\<close> from position 1.
\<close>

theorem api_success_endIndex:
  assumes "returns env g code P (Success v e)"
  shows "P \<le> e"
proof -
  from assms obtain d where "parse (build d env g) code P = Some (Success v e)"
    by (auto simp: returns_def)
  with advances_build [of d env g] show ?thesis
    unfolding advances_def by blast
qed

theorem api_success_endIndex_witness:
  "returns parens_env (DynamicE ''parens'') (lit ''x(())'') 1
     (Success (Array [Array [Str (lit ''(''),
                             Array [Array [Str (lit ''(''), Null], Str (lit '')'')]],
                      Str (lit '')'')] :: unit val) 5)
 \<and> (1::nat) \<le> 5"
proof -
  have "parse (build 3 parens_env (DynamicE ''parens'') :: unit parser) (lit ''x(())'') 1
      = Some (Success (Array [Array [Str (lit ''(''),
                             Array [Array [Str (lit ''(''), Null], Str (lit '')'')]],
                      Str (lit '')'')]) 5)"
    by (simp add: numeral_3_eq_3 parens_env_def dynamic_def concatP_def option_def unionP_def
          NONE_def never_returns_def eval_defs)
  then have r: "returns parens_env (DynamicE ''parens'') (lit ''x(())'') 1
     (Success (Array [Array [Str (lit ''(''),
                             Array [Array [Str (lit ''(''), Null], Str (lit '')'')]],
                      Str (lit '')'')] :: unit val) 5)"
    unfolding returns_def by (rule exI [where x = 3])
  have "(1::nat) \<le> 5" using api_success_endIndex [OF r] .
  with r show ?thesis by (rule conjI)
qed

text \<open>
  Claim C10. For every parser built from the public API, \<open>mapFailMessages\<close>
  included, every input and every start position, the \<open>messages\<close> of a Failure that
  \<open>parse\<close> returns are a non-empty list.

  \<open>mapFailMessages\<close> puts whatever its argument returns into the Failure, and nothing
  keeps that function from returning the empty list.
\<close>

theorem api_failure_messages_counterexample:
  "parse (mapFailMessages (word (lit ''x'')) (\<lambda>ms. []) :: unit parser) (lit ''a'') 0
     = Some (Failure [] 0 None)
 \<and> returns (\<lambda>x. NoneE) (MapFailMessagesE (WordE (lit ''x'')) (\<lambda>ms. [])) (lit ''a'') 0
     (Failure [] 0 None :: unit result)"
proof
  show "parse (mapFailMessages (word (lit ''x'')) (\<lambda>ms. []) :: unit parser) (lit ''a'') 0
     = Some (Failure [] 0 None)"
    by (simp add: eval_defs mapFailMessages_def)
  show "returns (\<lambda>x. NoneE) (MapFailMessagesE (WordE (lit ''x'')) (\<lambda>ms. [])) (lit ''a'') 0
     (Failure [] 0 None :: unit result)"
    unfolding returns_def
    by (rule exI [of _ 0]) (simp add: eval_defs mapFailMessages_def)
qed

text \<open>
  Claim C10, as the code has it: for every parser built from the public API in
  which every function handed to \<open>mapFailMessages\<close> maps non-empty lists to
  non-empty lists, every input and every start position, the \<open>messages\<close> of a
  Failure that \<open>parse\<close> returns are a non-empty list. The condition is on the
  expression and on everything its variables are bound to; grammars that refer to
  themselves through \<open>dynamic\<close> are included, and the example is the grammar of
  nested parentheses on the input \<open>(()\<close>.
\<close>

theorem api_failure_messages:
  assumes "\<forall>x. nonempty_maps (env x)" and "nonempty_maps g"
    and "returns env g code P (Failure ms fi u)"
  shows "ms \<noteq> []"
proof -
  from assms(3) obtain d where "parse (build d env g) code P = Some (Failure ms fi u)"
    by (auto simp: returns_def)
  with reports_build [OF assms(1) assms(2), of d] show ?thesis
    unfolding reports_def by blast
qed

theorem api_failure_messages_witness:
  "nonempty_maps (MapFailMessagesE (DynamicE ''parens'') (\<lambda>ms. lit ''no parentheses'' # ms)
                   :: unit expr)
 \<and> returns parens_env
       (MapFailMessagesE (DynamicE ''parens'') (\<lambda>ms. lit ''no parentheses'' # ms))
       (lit ''(()'') 0
       (Failure [lit ''no parentheses'', first_message (lit '')'') []] 3 None :: unit result)
 \<and> [lit ''no parentheses'', first_message (lit '')'') []] \<noteq> []"
proof -
  let ?g = "MapFailMessagesE (DynamicE ''parens'') (\<lambda>ms. lit ''no parentheses'' # ms) :: unit expr"
  have e: "\<forall>x. nonempty_maps (parens_env x :: unit expr)"
    by (simp add: parens_env_def)
  have g: "nonempty_maps ?g" by simp
  have "parse (build 3 parens_env ?g) (lit ''(()'') 0
      = Some (Failure [lit ''no parentheses'', first_message (lit '')'') []] 3 None)"
    by (simp add: numeral_3_eq_3 parens_env_def dynamic_def concatP_def option_def unionP_def
          NONE_def never_returns_def mapFailMessages_def eval_defs)
  then have r: "returns parens_env ?g (lit ''(()'') 0
       (Failure [lit ''no parentheses'', first_message (lit '')'') []] 3 None)"
    unfolding returns_def by (rule exI [where x = 3])
  have "[lit ''no parentheses'', first_message (lit '')'') []] \<noteq> []"
    using api_failure_messages [OF e g r] .
  with r have "returns parens_env ?g (lit ''(()'') 0
       (Failure [lit ''no parentheses'', first_message (lit '')'') []] 3 None)
     \<and> [lit ''no parentheses'', first_message (lit '')'') []] \<noteq> []"
    by (rule conjI)
  with g show ?thesis by (rule conjI)
qed

end
